theory Spec2Isabelle
  imports Main "HOL-Library.Monad_Syntax"
begin

section \<open>The prolame front end: lexer, grammar actions and program store\<close>

text \<open>
  The source is \<^verbatim>\<open>src/parser.py\<close>: a Ply lexer (the \<^verbatim>\<open>t_\<close> rules), a Ply grammar
  (the \<^verbatim>\<open>p_\<close> functions, whose docstrings are the productions and whose bodies are the
  reduction actions), the class \<^verbatim>\<open>Program\<close> holding the parsed program, and
  \<^verbatim>\<open>parseProgram\<close>.  Python values are dynamically typed, so the values the actions
  build are modelled by one datatype of Python values; every tuple and list keeps the
  positions the source gives it.
\<close>

subsection \<open>Python values and errors\<close>

datatype pyval = PNone | PInt int | PStr string | PTuple "pyval list" | PList "pyval list"

datatype toktype = LPAREN | RPAREN | NOT | VAR | NUMBER | PERIOD | ENTAILED | IDENT
  | COMMA | PLUS | MINUS | TIMES | MOD | QUESTION | END | ERROR

text \<open>
  A token carries its type, its text and the line it was read on.  The first fourteen token
  types are the tuple \<^verbatim>\<open>tokens\<close> of the source.  \<open>END\<close> is the \<^verbatim>\<open>$end\<close> symbol the
  parser makes when the lexer has no more input, and \<open>ERROR\<close> is the token of type
  \<^verbatim>\<open>error\<close> that the lexer hands to \<^verbatim>\<open>t_error\<close>, whose value is the rest of the input.
\<close>

datatype token = LexToken (tok_type: toktype) (tok_value: string) (tok_lineno: nat)

text \<open>
  The ways a parse ends without success: \<^verbatim>\<open>t_error\<close> prints the illegal character and
  the line and exits; \<^verbatim>\<open>p_error\<close> prints the offending token (\<open>None\<close> at the end of the
  input) and exits; \<open>PyException\<close> stands for an uncaught Python exception in an action.
\<close>

datatype error = LexicalError char nat | SyntaxError "token option" | PyException

subsection \<open>Lexer\<close>

definition t_ignore :: string where
  "t_ignore = [CHR '' '', CHR 0x09]"

definition lower :: "char \<Rightarrow> bool" where
  "lower c = (c \<in> set ''abcdefghijklmnopqrstuvwxyz'')"

definition upper :: "char \<Rightarrow> bool" where
  "upper c = (c \<in> set ''ABCDEFGHIJKLMNOPQRSTUVWXYZ'')"

definition digit :: "char \<Rightarrow> bool" where
  "digit c = (c \<in> set ''0123456789'')"

text \<open>The character class \<^verbatim>\<open>[a-zA-Z0-9_]\<close> of \<^verbatim>\<open>t_IDENT\<close> and \<^verbatim>\<open>t_VAR\<close>.\<close>

definition word_char :: "char \<Rightarrow> bool" where
  "word_char c = (lower c \<or> upper c \<or> digit c \<or> c = CHR ''_'')"

definition newline :: "char \<Rightarrow> bool" where
  "newline c = (c = CHR 0x0A)"

text \<open>\<^verbatim>\<open>t_newline\<close>: the line counter grows by the length of the run; no token is returned.\<close>

definition t_newline :: "string \<Rightarrow> nat \<Rightarrow> nat" where
  "t_newline v lineno = lineno + length v"

text \<open>\<^verbatim>\<open>t_IDENT\<close>: an identifier whose text is \<^verbatim>\<open>not\<close> becomes a \<open>NOT\<close> token.\<close>

definition t_IDENT :: "token \<Rightarrow> token" where
  "t_IDENT t = (if tok_value t = ''not'' then LexToken NOT (tok_value t) (tok_lineno t) else t)"

text \<open>
  One match of Ply's master pattern at the head \<open>c # cs\<close> of the input.  Ply tries the
  rules in its master order, and the first one that matches wins: the function rules in
  the order they are defined (\<^verbatim>\<open>t_newline\<close>, \<^verbatim>\<open>t_IDENT\<close>), then the string rules by
  decreasing length of their pattern, rules of the same length in the order they are
  defined (\<^verbatim>\<open>t_VAR\<close>; \<^verbatim>\<open>t_NOT\<close>, \<^verbatim>\<open>t_NUMBER\<close>; the seven patterns of two characters;
  \<^verbatim>\<open>t_COMMA\<close>, \<^verbatim>\<open>t_MINUS\<close>, \<^verbatim>\<open>t_MOD\<close>).  Each pattern is greedy.  The result is a token
  and the rest of the input, or, for \<^verbatim>\<open>t_newline\<close>, which returns nothing, the rest of the
  input and the new line number, or that no rule matches.  The input is a string of
  characters with code points below 256, among which the digits of \<^verbatim>\<open>\d\<close> are \<^verbatim>\<open>0\<close> to
  \<^verbatim>\<open>9\<close>.
\<close>

datatype lexed = Token token string | Skipped string nat | Illegal

definition lex_match :: "char \<Rightarrow> string \<Rightarrow> nat \<Rightarrow> lexed" where
  "lex_match c cs lineno =
    (if newline c then
       Skipped (dropWhile newline cs) (t_newline (c # takeWhile newline cs) lineno)
     else if lower c then
       Token (t_IDENT (LexToken IDENT (c # takeWhile word_char cs) lineno)) (dropWhile word_char cs)
     else if upper c then
       Token (LexToken VAR (c # takeWhile word_char cs) lineno) (dropWhile word_char cs)
     else if c # take 2 cs = ''not'' then Token (LexToken NOT (c # take 2 cs) lineno) (drop 2 cs)
     else if digit c then
       Token (LexToken NUMBER (c # takeWhile digit cs) lineno) (dropWhile digit cs)
     else if c = CHR ''('' then Token (LexToken LPAREN [c] lineno) cs
     else if c = CHR '')'' then Token (LexToken RPAREN [c] lineno) cs
     else if c = CHR ''.'' then Token (LexToken PERIOD [c] lineno) cs
     else if c = CHR ''?'' then Token (LexToken QUESTION [c] lineno) cs
     else if c = CHR ''+'' then Token (LexToken PLUS [c] lineno) cs
     else if c = CHR ''*'' then Token (LexToken TIMES [c] lineno) cs
     else if c = CHR '':'' \<and> take 1 cs = ''-'' then
       Token (LexToken ENTAILED (c # take 1 cs) lineno) (drop 1 cs)
     else if c = CHR '','' then Token (LexToken COMMA [c] lineno) cs
     else if c = CHR ''-'' then Token (LexToken MINUS [c] lineno) cs
     else if c = CHR ''%'' then Token (LexToken MOD [c] lineno) cs
     else Illegal)"

lemma lex_match_Token_length: "lex_match c cs lineno = Token t rest \<Longrightarrow> length rest \<le> length cs"
  by (auto simp: lex_match_def length_dropWhile_le split: if_splits)

lemma lex_match_Skipped_length:
  "lex_match c cs lineno = Skipped rest lineno' \<Longrightarrow> length rest \<le> length cs"
  by (auto simp: lex_match_def length_dropWhile_le split: if_splits)

text \<open>
  The token stream of an input, from a given line number.  Before each match the lexer
  skips the characters of \<^verbatim>\<open>t_ignore\<close>.  The parser pulls the tokens one at a time; the
  lexer does not depend on the parser, so the stream is given here as a list, closed by
  \<open>END\<close> or by the \<open>ERROR\<close> token at which \<^verbatim>\<open>t_error\<close> would be called.
\<close>

function tokenize :: "string \<Rightarrow> nat \<Rightarrow> token list" where
  "tokenize [] lineno = [LexToken END [] lineno]"
| "tokenize (c # cs) lineno =
    (if c \<in> set t_ignore then tokenize cs lineno
     else
       (case lex_match c cs lineno of
          Token t rest \<Rightarrow> t # tokenize rest lineno
        | Skipped rest lineno' \<Rightarrow> tokenize rest lineno'
        | Illegal \<Rightarrow> [LexToken ERROR (c # cs) lineno]))"
  by pat_completeness auto
termination
  by (relation "measure (\<lambda>(s, n). length s)")
     (auto simp: less_Suc_eq_le dest: lex_match_Token_length lex_match_Skipped_length)

subsection \<open>Python operations used by the actions\<close>

text \<open>
  An action that raises is \<open>None\<close>.  \<open>item p i\<close> is \<^verbatim>\<open>p[i]\<close> for an index from the
  front (IndexError out of range).  In an action, \<^verbatim>\<open>p[0]\<close> is the slot for the result and
  \<^verbatim>\<open>p[1]\<close>, \<^verbatim>\<open>p[2]\<close>, ... are the values of the symbols of the production, so
  \<^verbatim>\<open>len(p)\<close> is one more than their number.
\<close>

definition item :: "pyval list \<Rightarrow> nat \<Rightarrow> pyval option" where
  "item p i = (if i < length p then Some (p ! i) else None)"

definition decimal :: "string \<Rightarrow> int" where
  "decimal s = foldl (\<lambda>n c. 10 * n + (int (of_char c) - 48)) 0 s"

text \<open>\<^verbatim>\<open>str.isdigit\<close> on the ASCII strings that token values are (AttributeError on a non-string).\<close>

fun py_isdigit :: "pyval \<Rightarrow> bool option" where
  "py_isdigit (PStr s) = Some (s \<noteq> [] \<and> list_all digit s)"
| "py_isdigit _ = None"

text \<open>
  \<^verbatim>\<open>int(x)\<close> for an integer and for a string of decimal digits, the only strings it is
  applied to here (a \<open>NUMBER\<close> token's text, or a text that passed \<^verbatim>\<open>isdigit\<close>); other
  arguments are taken as raising.  CPython from 3.11 on (and the security releases of the
  versions before it) converts no string of more than \<^verbatim>\<open>sys.get_int_max_str_digits()\<close>
  digits, 4300 unless the process changes it: \<^verbatim>\<open>int\<close> raises ValueError on a longer
  one, leading zeros included.
\<close>

definition int_max_str_digits :: nat where
  "int_max_str_digits = 4300"

fun py_int :: "pyval \<Rightarrow> pyval option" where
  "py_int (PInt n) = Some (PInt n)"
| "py_int (PStr s) =
     (if s \<noteq> [] \<and> list_all digit s \<and> length s \<le> int_max_str_digits
      then Some (PInt (decimal s)) else None)"
| "py_int _ = None"

text \<open>\<^verbatim>\<open>x + y\<close> (TypeError on operands of different kinds).\<close>

fun py_add :: "pyval \<Rightarrow> pyval \<Rightarrow> pyval option" where
  "py_add (PList xs) (PList ys) = Some (PList (xs @ ys))"
| "py_add (PTuple xs) (PTuple ys) = Some (PTuple (xs @ ys))"
| "py_add (PStr xs) (PStr ys) = Some (PStr (xs @ ys))"
| "py_add (PInt x) (PInt y) = Some (PInt (x + y))"
| "py_add _ _ = None"

text \<open>\<^verbatim>\<open>x[:]\<close>, a copy of a sequence, and \<^verbatim>\<open>ret.append(x)\<close>, which only a list has.\<close>

fun py_copy :: "pyval \<Rightarrow> pyval option" where
  "py_copy (PList xs) = Some (PList xs)"
| "py_copy (PTuple xs) = Some (PTuple xs)"
| "py_copy (PStr xs) = Some (PStr xs)"
| "py_copy _ = None"

fun py_append :: "pyval \<Rightarrow> pyval \<Rightarrow> pyval option" where
  "py_append (PList xs) x = Some (PList (xs @ [x]))"
| "py_append _ x = None"

subsection \<open>The program store\<close>

text \<open>
  The class \<^verbatim>\<open>Program\<close> holds the parsed program in class attributes, shared by every
  parse of the process.  The parser touches \<^verbatim>\<open>predicates\<close>, \<^verbatim>\<open>rules\<close>, \<^verbatim>\<open>facts\<close> and
  \<^verbatim>\<open>queries\<close>; the other attributes are for later stages.  The store is passed in and
  returned.
\<close>

record Program =
  predicates :: "pyval \<rightharpoonup> pyval"
  rules :: "pyval list"
  facts :: "pyval list"
  queries :: "pyval list"

text \<open>The store as the class statement leaves it.\<close>

definition Program_init :: Program where
  "Program_init = \<lparr>predicates = Map.empty, rules = [], facts = [], queries = []\<rparr>"

text \<open>
  \<^verbatim>\<open>Program.arithmetics\<close>, on integers.  Python's \<^verbatim>\<open>%\<close> on integers is the remainder of
  floor division, as \<open>mod\<close> on \<open>int\<close> is, and raises ZeroDivisionError for a zero divisor.
\<close>

definition arithmetics :: "string \<rightharpoonup> (int \<Rightarrow> int \<Rightarrow> int option)" where
  "arithmetics =
     [''+'' \<mapsto> (\<lambda>x y. Some (x + y)),
      ''-'' \<mapsto> (\<lambda>x y. Some (x - y)),
      ''%'' \<mapsto> (\<lambda>x y. if y = 0 then None else Some (x mod y)),
      ''*'' \<mapsto> (\<lambda>x y. case py_int (PInt (x * y)) of Some (PInt n) \<Rightarrow> Some n | _ \<Rightarrow> None)]"

text \<open>\<^verbatim>\<open>Program.arithmetics[op](x, y)\<close>; a symbol that is not in the table raises KeyError.\<close>

definition arithmetic :: "string \<Rightarrow> int \<Rightarrow> int \<Rightarrow> int option" where
  "arithmetic op x y = (case arithmetics op of None \<Rightarrow> None | Some f \<Rightarrow> f x y)"

subsection \<open>Grammar actions\<close>

definition p_declaration :: "pyval list \<Rightarrow> Program \<Rightarrow> Program option" where
  "p_declaration p st = do {
     p2 \<leftarrow> item p 2;
     n \<leftarrow> py_int p2;
     p1 \<leftarrow> item p 1;
     Some (st\<lparr>predicates := (predicates st)(p1 \<mapsto> n)\<rparr>)
   }"

definition p_fact :: "pyval list \<Rightarrow> Program \<Rightarrow> Program option" where
  "p_fact p st = do {
     p1 \<leftarrow> item p 1;
     if p1 = PStr ''not'' then do {
       p2 \<leftarrow> item p 2;
       p4 \<leftarrow> item p 4;
       Some (st\<lparr>facts := facts st @ [PTuple [PInt (- 1), p2, p4]]\<rparr>)
     } else do {
       p3 \<leftarrow> item p 3;
       Some (st\<lparr>facts := facts st @ [PTuple [PInt 1, p1, p3]]\<rparr>)
     }
   }"

definition p_query :: "pyval list \<Rightarrow> Program \<Rightarrow> Program option" where
  "p_query p st = do {
     p2 \<leftarrow> item p 2;
     p4 \<leftarrow> item p 4;
     Some (st\<lparr>queries := queries st @ [PTuple [p2, p4]]\<rparr>)
   }"

definition p_params :: "pyval list \<Rightarrow> pyval option" where
  "p_params p =
     (if length p > 2 then do {
        p1 \<leftarrow> item p 1;
        p3 \<leftarrow> item p 3;
        py_add p1 (PList [p3])
      } else do {
        p1 \<leftarrow> item p 1;
        Some (PList [p1])
      })"

definition p_var_expr :: "pyval list \<Rightarrow> pyval option" where
  "p_var_expr p =
     (if length p > 2 then do {
        p1 \<leftarrow> item p 1;
        p2 \<leftarrow> item p 2;
        p3 \<leftarrow> item p 3;
        Some (PTuple [p1, p2, p3])
      } else do {
        p1 \<leftarrow> item p 1;
        d \<leftarrow> py_isdigit p1;
        if d then py_int p1 else Some p1
      })"

definition p_predicate :: "pyval list \<Rightarrow> pyval option" where
  "p_predicate p = do {
     p1 \<leftarrow> item p 1;
     if p1 = PStr ''not'' then do {
       p2 \<leftarrow> item p 2;
       p4 \<leftarrow> item p 4;
       Some (PTuple [PInt (- 1), p2, p4])
     } else do {
       p3 \<leftarrow> item p 3;
       Some (PTuple [PInt 1, p1, p3])
     }
   }"

definition p_antecedents :: "pyval list \<Rightarrow> pyval option" where
  "p_antecedents p =
     (if length p < 3 then do {
        p1 \<leftarrow> item p 1;
        Some (PList [p1])
      } else do {
        p3 \<leftarrow> item p 3;
        ret \<leftarrow> py_copy p3;
        p1 \<leftarrow> item p 1;
        py_append ret p1
      })"

definition p_rule :: "pyval list \<Rightarrow> Program \<Rightarrow> Program option" where
  "p_rule p st = do {
     p1 \<leftarrow> item p 1;
     p3 \<leftarrow> item p 3;
     Some (st\<lparr>rules := rules st @ [PTuple [p1, p3]]\<rparr>)
   }"

subsection \<open>The parser\<close>

text \<open>
  \<^verbatim>\<open>yacc.yacc()\<close> builds an LALR(1) parser from the productions in the docstrings, with
  \<^verbatim>\<open>program\<close>, the first one, as the start symbol, and \<^verbatim>\<open>yacc.parse\<close> runs it on
  the token stream, calling each action when its production is reduced.  The functions
  below are that parser for this grammar: they shift the tokens a production needs, in
  order, and apply its action to the values of its symbols.  A token that no production
  accepts where it stands goes to \<^verbatim>\<open>p_error\<close>, which exits; at the end of the input
  \<^verbatim>\<open>p_error\<close> gets \<^verbatim>\<open>None\<close>; and asking the lexer for a token at an illegal character
  runs \<^verbatim>\<open>t_error\<close>, which exits.
\<close>

fun fail_at :: "token list \<Rightarrow> error" where
  "fail_at [] = SyntaxError None"
| "fail_at (t # ts) =
     (if tok_type t = ERROR then
        (case tok_value t of [] \<Rightarrow> PyException | c # cs \<Rightarrow> LexicalError c (tok_lineno t))
      else if tok_type t = END then SyntaxError None
      else SyntaxError (Some t))"

text \<open>The type of the lookahead token.\<close>

fun la :: "token list \<Rightarrow> toktype" where
  "la [] = END"
| "la (t # ts) = tok_type t"

text \<open>Shifting a token of a given type: its value goes on the stack.\<close>

fun expect :: "toktype \<Rightarrow> token list \<Rightarrow> error + (pyval \<times> token list)" where
  "expect k [] = Inl (fail_at [])"
| "expect k (t # ts) = (if tok_type t = k then Inr (PStr (tok_value t), ts) else Inl (fail_at (t # ts)))"

definition raising :: "'a option \<Rightarrow> error + 'a" where
  "raising r = (case r of None \<Rightarrow> Inl PyException | Some v \<Rightarrow> Inr v)"

definition seq :: "error + 'a \<Rightarrow> ('a \<Rightarrow> error + 'b) \<Rightarrow> error + 'b" where
  "seq m f = (case m of Inl e \<Rightarrow> Inl e | Inr v \<Rightarrow> f v)"

subsubsection \<open>Operator precedence\<close>

datatype assoc = Left_assoc | Right_assoc | Nonassoc

text \<open>The table \<^verbatim>\<open>precedence\<close> of the source: one level, left associative.\<close>

definition precedence :: "(assoc \<times> toktype list) list" where
  "precedence = [(Left_assoc, [PLUS, MINUS, MOD, TIMES])]"

text \<open>
  Ply numbers the levels of the table from 1 and gives a terminal that is not in it
  the precedence \<^verbatim>\<open>('right', 0)\<close>.  A production has the precedence of its last terminal.
\<close>

fun prec_lookup :: "(assoc \<times> toktype list) list \<Rightarrow> nat \<Rightarrow> toktype \<Rightarrow> assoc \<times> nat" where
  "prec_lookup [] level k = (Right_assoc, 0)"
| "prec_lookup ((a, ks) # rest) level k =
     (if k \<in> set ks then (a, level) else prec_lookup rest (Suc level) k)"

datatype lr_action = Shift | Reduce | Reject

text \<open>
  How Ply settles a shift/reduce conflict between reducing a production whose last terminal
  is \<open>r\<close> and shifting the lookahead \<open>k\<close>.
\<close>

definition resolve :: "toktype \<Rightarrow> toktype \<Rightarrow> lr_action" where
  "resolve r k =
     (let (rprec, rlevel) = prec_lookup precedence 1 r;
          (sprec, slevel) = prec_lookup precedence 1 k
      in if slevel < rlevel \<or> (slevel = rlevel \<and> rprec = Left_assoc) then Reduce
         else if slevel = rlevel \<and> rprec = Nonassoc then Reject
         else Shift)"

definition operator :: "toktype \<Rightarrow> bool" where
  "operator k = (k = PLUS \<or> k = MINUS \<or> k = MOD \<or> k = TIMES)"

definition atom :: "toktype \<Rightarrow> bool" where
  "atom k = (k = VAR \<or> k = NUMBER)"

subsubsection \<open>var_expr\<close>

text \<open>
  The reduction of \<^verbatim>\<open>var_expr : VAR\<close> or \<^verbatim>\<open>var_expr : NUMBER\<close>, with the atom \<open>a\<close> on
  top of the stack and \<open>ts\<close> the tokens after it.  The productions of \<^verbatim>\<open>var_expr\<close>
  reduce on six lookahead tokens, the four operators, \<open>COMMA\<close> and \<open>RPAREN\<close>, so the
  parser reads the token after the atom before it reduces: if it is one of the six, the
  action runs, and may raise; at any other token the parse fails at that token (or at the
  illegal character the lexer meets), and the action has not run.
\<close>

definition reduce_atom :: "token \<Rightarrow> token list \<Rightarrow> error + pyval" where
  "reduce_atom a ts =
     (if operator (la ts) \<or> la ts = COMMA \<or> la ts = RPAREN
      then raising (p_var_expr [PNone, PStr (tok_value a)])
      else Inl (fail_at ts))"

text \<open>
  The productions of \<^verbatim>\<open>var_expr\<close> are ambiguous, and the parser is the shift-reduce
  parser that the precedence table selects.  \<open>stk\<close> holds the operands and operators
  shifted and not yet reduced, the innermost first, and \<open>v\<close> is the value of the
  \<^verbatim>\<open>var_expr\<close> on top of them; the lookahead \<open>la ts\<close> is one that the reduction that
  made \<open>v\<close> has accepted.  On an operator the parser shifts it and the atom after it, or
  reduces the production on top of the stack, as \<open>resolve\<close> says; on \<open>COMMA\<close> or
  \<open>RPAREN\<close> it reduces what is left and returns to the production that asked for a
  \<^verbatim>\<open>var_expr\<close>.
\<close>

function var_expr_lr :: "(pyval \<times> token) list \<Rightarrow> pyval \<Rightarrow> token list \<Rightarrow> error + (pyval \<times> token list)" where
  "var_expr_lr stk v ts =
     (if operator (la ts) \<and> (stk = [] \<or> resolve (tok_type (snd (hd stk))) (la ts) = Shift) then
        (case ts of
           t # a # ts' \<Rightarrow>
             if atom (tok_type a) then
               (case reduce_atom a ts' of
                  Inl e \<Rightarrow> Inl e
                | Inr v' \<Rightarrow> var_expr_lr ((v, t) # stk) v' ts')
             else Inl (fail_at (a # ts'))
         | _ \<Rightarrow> Inl (fail_at []))
      else if operator (la ts) \<and> resolve (tok_type (snd (hd stk))) (la ts) = Reject then
        Inl (fail_at ts)
      else
        (case stk of
           [] \<Rightarrow> Inr (v, ts)
         | (l, t) # stk' \<Rightarrow>
             (case p_var_expr [PNone, l, PStr (tok_value t), v] of
                None \<Rightarrow> Inl PyException
              | Some v' \<Rightarrow> var_expr_lr stk' v' ts)))"
  by pat_completeness auto
termination
  by (relation "measure (\<lambda>(stk, v, ts). 2 * length ts + length stk)") auto

declare var_expr_lr.simps [simp del]

definition var_expr :: "token list \<Rightarrow> error + (pyval \<times> token list)" where
  "var_expr ts =
     (case ts of
        [] \<Rightarrow> Inl (fail_at [])
      | a # ts' \<Rightarrow>
          if atom (tok_type a) then
            (case reduce_atom a ts' of
               Inl e \<Rightarrow> Inl e
             | Inr v \<Rightarrow> var_expr_lr [] v ts')
          else Inl (fail_at ts))"

lemma var_expr_lr_length:
  "var_expr_lr stk v ts = Inr (r, ts') \<Longrightarrow> length ts' \<le> length ts"
proof (induction stk v ts rule: var_expr_lr.induct)
  case (1 stk v ts)
  show ?case
    using "1.prems" "1.IH"
    apply (subst (asm) var_expr_lr.simps)
    apply (simp split: if_splits list.splits option.splits prod.splits sum.splits)
     apply fastforce+
    done
qed

lemma var_expr_length:
  "var_expr ts = Inr (r, ts') \<Longrightarrow> length ts' < length ts"
  by (auto simp: var_expr_def split: list.splits if_splits option.splits sum.splits
        dest: var_expr_lr_length)

subsubsection \<open>params\<close>

text \<open>
  \<^verbatim>\<open>params : var_expr | params COMMA var_expr\<close> is left recursive: the first
  \<^verbatim>\<open>var_expr\<close> is reduced to a \<^verbatim>\<open>params\<close>, and each comma and \<^verbatim>\<open>var_expr\<close> after it
  is reduced with the \<^verbatim>\<open>params\<close> so far.
\<close>

function params_lr :: "pyval \<Rightarrow> token list \<Rightarrow> error + (pyval \<times> token list)" where
  "params_lr ps ts =
     (case ts of
        [] \<Rightarrow> Inr (ps, ts)
      | t # ts1 \<Rightarrow>
          if tok_type t = COMMA then
            (case var_expr ts1 of
               Inl e \<Rightarrow> Inl e
             | Inr (v, ts') \<Rightarrow>
                 (case p_params [PNone, ps, PStr (tok_value t), v] of
                    None \<Rightarrow> Inl PyException
                  | Some ps' \<Rightarrow> params_lr ps' ts'))
          else Inr (ps, ts))"
  by pat_completeness auto
termination
  by (relation "measure (\<lambda>(ps, ts). length ts)") (auto dest: var_expr_length)

declare params_lr.simps [simp del]

definition params :: "token list \<Rightarrow> error + (pyval \<times> token list)" where
  "params ts =
     (case var_expr ts of
        Inl e \<Rightarrow> Inl e
      | Inr (v, ts') \<Rightarrow>
          (case p_params [PNone, v] of
             None \<Rightarrow> Inl PyException
           | Some ps \<Rightarrow> params_lr ps ts'))"

lemma params_lr_length:
  "params_lr ps ts = Inr (r, ts') \<Longrightarrow> length ts' \<le> length ts"
proof (induction ps ts rule: params_lr.induct)
  case (1 ps ts)
  show ?case
    using "1.prems" "1.IH"
    apply (subst (asm) params_lr.simps)
    apply (simp split: if_splits list.splits option.splits prod.splits sum.splits)
     apply (fastforce dest: var_expr_length)+
    done
qed

lemma params_length:
  "params ts = Inr (r, ts') \<Longrightarrow> length ts' < length ts"
  by (auto simp: params_def split: sum.splits option.splits
        dest!: var_expr_length params_lr_length)

subsubsection \<open>Predicate applications\<close>

text \<open>
  The symbols \<^verbatim>\<open>IDENT LPAREN params RPAREN\<close> or \<^verbatim>\<open>NOT IDENT LPAREN params RPAREN\<close>,
  shared by \<^verbatim>\<open>fact\<close> and \<^verbatim>\<open>predicate\<close>; the result is the values of these symbols,
  after the slot for the result.
\<close>

definition application :: "token list \<Rightarrow> error + (pyval list \<times> token list)" where
  "application ts =
     (if la ts = NOT then
        seq (expect NOT ts) (\<lambda>(v1, ts).
        seq (expect IDENT ts) (\<lambda>(v2, ts).
        seq (expect LPAREN ts) (\<lambda>(v3, ts).
        seq (params ts) (\<lambda>(v4, ts).
        seq (expect RPAREN ts) (\<lambda>(v5, ts).
        Inr ([PNone, v1, v2, v3, v4, v5], ts))))))
      else
        seq (expect IDENT ts) (\<lambda>(v1, ts).
        seq (expect LPAREN ts) (\<lambda>(v2, ts).
        seq (params ts) (\<lambda>(v3, ts).
        seq (expect RPAREN ts) (\<lambda>(v4, ts).
        Inr ([PNone, v1, v2, v3, v4], ts))))))"

text \<open>\<^verbatim>\<open>predicate\<close>, where only a predicate can stand: in the antecedents of a rule.\<close>

definition predicate :: "token list \<Rightarrow> error + (pyval \<times> token list)" where
  "predicate ts = seq (application ts) (\<lambda>(p, ts). seq (raising (p_predicate p)) (\<lambda>v. Inr (v, ts)))"

lemma expect_length:
  "expect k ts = Inr (r, ts') \<Longrightarrow> length ts' < length ts"
  by (cases ts) (auto split: if_splits)

lemma application_length:
  "application ts = Inr (r, ts') \<Longrightarrow> length ts' < length ts"
  by (auto simp: application_def seq_def split: if_splits sum.splits
        dest!: expect_length params_length)

lemma predicate_length:
  "predicate ts = Inr (r, ts') \<Longrightarrow> length ts' < length ts"
  by (auto simp: predicate_def seq_def raising_def split: sum.splits option.splits
        dest!: application_length)

subsubsection \<open>antecedents\<close>

text \<open>
  \<^verbatim>\<open>antecedents : predicate | predicate COMMA antecedents\<close> is right recursive: the
  parser shifts every predicate of the list, and reduces from the last one back, each
  time with the first predicate of the rest as \<^verbatim>\<open>p[1]\<close> and the antecedents after it as
  \<^verbatim>\<open>p[3]\<close>.
\<close>

function antecedents :: "token list \<Rightarrow> error + (pyval \<times> token list)" where
  "antecedents ts =
     (case predicate ts of
        Inl e \<Rightarrow> Inl e
      | Inr (v1, ts1) \<Rightarrow>
          (case ts1 of
             [] \<Rightarrow> seq (raising (p_antecedents [PNone, v1])) (\<lambda>v. Inr (v, ts1))
           | t # ts2 \<Rightarrow>
               if tok_type t = COMMA then
                 (case antecedents ts2 of
                    Inl e \<Rightarrow> Inl e
                  | Inr (v3, ts3) \<Rightarrow>
                      seq (raising (p_antecedents [PNone, v1, PStr (tok_value t), v3]))
                        (\<lambda>v. Inr (v, ts3)))
               else seq (raising (p_antecedents [PNone, v1])) (\<lambda>v. Inr (v, ts1))))"
  by pat_completeness auto
termination
  by (relation "measure length") (auto dest: predicate_length)

declare antecedents.simps [simp del]

lemma antecedents_length:
  "antecedents ts = Inr (r, ts') \<Longrightarrow> length ts' < length ts"
proof (induction ts arbitrary: r ts' rule: antecedents.induct)
  case (1 ts)
  show ?case
    using "1.prems" "1.IH"
    apply (subst (asm) antecedents.simps)
    apply (simp add: seq_def raising_def
        split: if_splits list.splits option.splits prod.splits sum.splits)
      apply (fastforce dest: predicate_length)+
    done
qed

subsubsection \<open>Clauses and the program\<close>

datatype production = Declaration | Fact | Query | Rule

text \<open>
  One clause, up to and including its period: the production to reduce and the values of
  its symbols.  The clause is reduced only when the parser has seen the token after it.
\<close>

definition clause :: "token list \<Rightarrow> error + ((production \<times> pyval list) \<times> token list)" where
  "clause ts =
     (if la ts = QUESTION then
        seq (expect QUESTION ts) (\<lambda>(v1, ts).
        seq (expect IDENT ts) (\<lambda>(v2, ts).
        seq (expect LPAREN ts) (\<lambda>(v3, ts).
        seq (params ts) (\<lambda>(v4, ts).
        seq (expect RPAREN ts) (\<lambda>(v5, ts).
        seq (expect PERIOD ts) (\<lambda>(v6, ts).
        Inr ((Query, [PNone, v1, v2, v3, v4, v5, v6]), ts)))))))
      else if la ts = IDENT \<and> la (tl ts) = NUMBER then
        seq (expect IDENT ts) (\<lambda>(v1, ts).
        seq (expect NUMBER ts) (\<lambda>(v2, ts).
        seq (expect PERIOD ts) (\<lambda>(v3, ts).
        Inr ((Declaration, [PNone, v1, v2, v3]), ts))))
      else
        seq (application ts) (\<lambda>(p, ts).
        if la ts = PERIOD then
          seq (expect PERIOD ts) (\<lambda>(v, ts). Inr ((Fact, p @ [v]), ts))
        else if la ts = ENTAILED then
          seq (raising (p_predicate p)) (\<lambda>v1.
          seq (expect ENTAILED ts) (\<lambda>(v2, ts).
          seq (antecedents ts) (\<lambda>(v3, ts).
          seq (expect PERIOD ts) (\<lambda>(v4, ts).
          Inr ((Rule, [PNone, v1, v2, v3, v4]), ts)))))
        else Inl (fail_at ts)))"

fun reduce :: "production \<Rightarrow> pyval list \<Rightarrow> Program \<Rightarrow> Program option" where
  "reduce Declaration p st = p_declaration p st"
| "reduce Fact p st = p_fact p st"
| "reduce Query p st = p_query p st"
| "reduce Rule p st = p_rule p st"

lemma clause_length:
  "clause ts = Inr (r, ts') \<Longrightarrow> length ts' < length ts"
  by (auto simp: clause_def seq_def raising_def split: if_splits sum.splits option.splits
        dest!: expect_length params_length application_length antecedents_length)

text \<open>
  \<^verbatim>\<open>program\<close> is the list of the clauses.  A clause starts with \<open>IDENT\<close>, \<open>NOT\<close> or
  \<open>QUESTION\<close>; the parser reduces a clause when the token after its period starts
  another clause or is the end of the input, and then its action changes the store.  At
  any other token, the store is as the clauses reduced so far have left it.
\<close>

definition clause_start :: "toktype \<Rightarrow> bool" where
  "clause_start k = (k = IDENT \<or> k = NOT \<or> k = QUESTION)"

function program :: "token list \<Rightarrow> Program \<Rightarrow> error option \<times> Program" where
  "program ts st =
     (if la ts = END then (None, st)
      else if clause_start (la ts) then
        (case clause ts of
           Inl e \<Rightarrow> (Some e, st)
         | Inr ((pr, p), ts') \<Rightarrow>
             if clause_start (la ts') \<or> la ts' = END then
               (case reduce pr p st of
                  None \<Rightarrow> (Some PyException, st)
                | Some st' \<Rightarrow> program ts' st')
             else (Some (fail_at ts'), st))
      else (Some (fail_at ts), st))"
  by pat_completeness auto
termination
  by (relation "measure (\<lambda>(ts, st). length ts)") (auto dest: clause_length)

declare program.simps [simp del]

text \<open>
  \<^verbatim>\<open>parseProgram\<close>: a new lexer, at line 1, on the text, and the parser on its tokens.
  The result is how the parse ended (\<open>None\<close> when the input was accepted) and the store.
\<close>

definition parseProgram :: "string \<Rightarrow> Program \<Rightarrow> error option \<times> Program" where
  "parseProgram src st = program (tokenize src 1) st"

section \<open>Notions for stating the properties\<close>

subsection \<open>Token streams of the lexer\<close>

text \<open>
  What the text of a token of the lexer is known to be, by its type: an \<open>IDENT\<close> is not
  \<^verbatim>\<open>not\<close>, a \<open>NOT\<close> is, a \<open>VAR\<close> starts with an upper-case letter, a \<open>NUMBER\<close> is a
  non-empty string of digits, an operator is its symbol, and the rest of the input at an
  illegal character is not empty.
\<close>

definition lex_ok :: "token \<Rightarrow> bool" where
  "lex_ok t =
     (case tok_type t of
        IDENT \<Rightarrow> tok_value t \<noteq> ''not''
      | NOT \<Rightarrow> tok_value t = ''not''
      | VAR \<Rightarrow> tok_value t \<noteq> [] \<and> upper (hd (tok_value t))
      | NUMBER \<Rightarrow> tok_value t \<noteq> [] \<and> list_all digit (tok_value t)
      | PLUS \<Rightarrow> tok_value t = ''+''
      | MINUS \<Rightarrow> tok_value t = ''-''
      | TIMES \<Rightarrow> tok_value t = ''*''
      | MOD \<Rightarrow> tok_value t = ''%''
      | ERROR \<Rightarrow> tok_value t \<noteq> []
      | _ \<Rightarrow> True)"

text \<open>Only the last token of a stream is \<open>END\<close> or \<open>ERROR\<close>.\<close>

fun proper :: "token list \<Rightarrow> bool" where
  "proper (a # b # ts) = (tok_type a \<noteq> END \<and> tok_type a \<noteq> ERROR \<and> proper (b # ts))"
| "proper ts = True"

subsection \<open>The parser of var_expr as a loop\<close>

text \<open>
  \<open>int_ok\<close> holds of a token whose text, if it is a string of digits, is one that
  \<^verbatim>\<open>int\<close> converts: one of at most 4300 digits.  \<open>term_of\<close> is the term that
  \<^verbatim>\<open>p_var_expr\<close> makes of such a \<open>VAR\<close> or \<open>NUMBER\<close> token; of a token that is not
  \<open>int_ok\<close> it makes none, and raises (\<open>p_var_expr_atom\<close>).  With the precedence table of the
  source the shift-reduce parser \<open>var_expr_lr\<close> never holds more than one operator on its
  stack; \<open>var_expr_loop\<close> is the loop it amounts to (\<open>var_expr_lr_loop\<close>), which takes
  an operator and an atom at a time and makes a node of the term so far, the operator and
  the atom.
\<close>

definition int_ok :: "token \<Rightarrow> bool" where
  "int_ok a = (list_all digit (tok_value a) \<longrightarrow> length (tok_value a) \<le> int_max_str_digits)"

definition term_of :: "token \<Rightarrow> pyval" where
  "term_of a = (if tok_value a \<noteq> [] \<and> list_all digit (tok_value a)
     then PInt (decimal (tok_value a)) else PStr (tok_value a))"

fun var_expr_loop :: "pyval \<Rightarrow> token list \<Rightarrow> error + (pyval \<times> token list)" where
  "var_expr_loop v [] = Inr (v, [])"
| "var_expr_loop v [t] = (if operator (tok_type t) then Inl (fail_at []) else Inr (v, [t]))"
| "var_expr_loop v (t # a # ts) =
     (if operator (tok_type t) then
        if atom (tok_type a) then
          (case reduce_atom a ts of
             Inl e \<Rightarrow> Inl e
           | Inr r \<Rightarrow> var_expr_loop (PTuple [v, PStr (tok_value t), r]) ts)
        else Inl (fail_at (a # ts))
      else Inr (v, t # a # ts))"

text \<open>
  The operands and operators of a term, read from the left of a node to its right, and
  what a token of a \<^verbatim>\<open>var_expr\<close> stands for in a term: the term of an atom, and the
  text of an operator.
\<close>

fun term_symbols :: "pyval \<Rightarrow> pyval list" where
  "term_symbols (PTuple [l, k, r]) = term_symbols l @ k # term_symbols r"
| "term_symbols v = [v]"

definition symbol_of :: "token \<Rightarrow> pyval" where
  "symbol_of t = (if atom (tok_type t) then term_of t else PStr (tok_value t))"

subsection \<open>The shape of the stored values\<close>

text \<open>
  An atomic term is an integer or a variable name (a string that starts with an
  upper-case letter).  A term is an atomic term, or a tuple of a term, an operator symbol
  and an atomic term, in this order: the operators associate to the left, so the right
  operand of a node is never a node.  A \<^verbatim>\<open>params\<close> value is a non-empty list of terms.
  A literal is a tuple of a sign, 1 or -1, a name other than \<^verbatim>\<open>not\<close>, and a
  \<^verbatim>\<open>params\<close> value.  A rule is a tuple of a literal and a non-empty list of literals,
  and a query a tuple of a name other than \<^verbatim>\<open>not\<close> and a \<^verbatim>\<open>params\<close> value.
\<close>

fun wf_atom :: "pyval \<Rightarrow> bool" where
  "wf_atom (PInt n) = True"
| "wf_atom (PStr s) = (s \<noteq> [] \<and> upper (hd s))"
| "wf_atom _ = False"

fun wf_term :: "pyval \<Rightarrow> bool" where
  "wf_term (PTuple [l, k, r]) =
     (wf_term l \<and> (k = PStr ''+'' \<or> k = PStr ''-'' \<or> k = PStr ''%'' \<or> k = PStr ''*'') \<and> wf_atom r)"
| "wf_term v = wf_atom v"

fun wf_params :: "pyval \<Rightarrow> bool" where
  "wf_params (PList xs) = (xs \<noteq> [] \<and> list_all wf_term xs)"
| "wf_params _ = False"

fun wf_literal :: "pyval \<Rightarrow> bool" where
  "wf_literal (PTuple [PInt s, PStr n, ps]) = ((s = 1 \<or> s = - 1) \<and> n \<noteq> ''not'' \<and> wf_params ps)"
| "wf_literal _ = False"

fun wf_antecedents :: "pyval \<Rightarrow> bool" where
  "wf_antecedents (PList xs) = (xs \<noteq> [] \<and> list_all wf_literal xs)"
| "wf_antecedents _ = False"

fun wf_rule :: "pyval \<Rightarrow> bool" where
  "wf_rule (PTuple [c, as]) = (wf_literal c \<and> wf_antecedents as)"
| "wf_rule _ = False"

fun wf_query :: "pyval \<Rightarrow> bool" where
  "wf_query (PTuple [PStr n, ps]) = (n \<noteq> ''not'' \<and> wf_params ps)"
| "wf_query _ = False"

text \<open>
  \<open>extend st d\<close> is the store \<open>st\<close> after the additions \<open>d\<close>: the declarations of \<open>d\<close>
  overwrite those of \<open>st\<close>, and its rules, facts and queries come after those of \<open>st\<close>.
\<close>

definition extend :: "Program \<Rightarrow> Program \<Rightarrow> Program" where
  "extend st d =
     \<lparr>predicates = predicates st ++ predicates d, rules = rules st @ rules d,
      facts = facts st @ facts d, queries = queries st @ queries d\<rparr>"

definition wf_store :: "Program \<Rightarrow> bool" where
  "wf_store st =
     (list_all wf_literal (facts st) \<and> list_all wf_rule (rules st) \<and>
      list_all wf_query (queries st))"

subsection \<open>Declarations and misplaced negation keywords in a token stream\<close>

text \<open>
  \<open>declared\<close> lists the name and the arity of every declaration
  \<^verbatim>\<open>IDENT NUMBER PERIOD\<close> of a token stream, in source order.  \<open>not_as_name\<close> holds of a
  token stream in which a \<open>NOT\<close> token is directly followed by an opening parenthesis:
  the keyword stands where the name of a predicate is expected.
\<close>

fun declared :: "token list \<Rightarrow> (pyval \<times> pyval) list" where
  "declared (a # b # c # ts) =
     (if tok_type a = IDENT \<and> tok_type b = NUMBER \<and> tok_type c = PERIOD
      then [(PStr (tok_value a), PInt (decimal (tok_value b)))] else [])
     @ declared (b # c # ts)"
| "declared ts = []"

fun not_as_name :: "token list \<Rightarrow> bool" where
  "not_as_name (a # b # ts) = ((tok_type a = NOT \<and> tok_type b = LPAREN) \<or> not_as_name (b # ts))"
| "not_as_name ts = False"

text \<open>
  \<open>scanned ts ts'\<close>: the tokens from \<open>ts\<close> up to \<open>ts'\<close> hold no declaration and no
  misplaced keyword, and \<open>ts'\<close> is a stream of the lexer with no number that \<^verbatim>\<open>int\<close>
  refuses if \<open>ts\<close> is one.  \<open>blames e ts\<close>: the failure \<open>e\<close> is a Python exception only
  if \<open>ts\<close> has a number that \<^verbatim>\<open>int\<close> refuses, and if \<open>ts\<close> has a misplaced keyword it
  is a syntax error or a Python exception.
\<close>

definition scanned :: "token list \<Rightarrow> token list \<Rightarrow> bool" where
  "scanned ts ts' =
     (declared ts = declared ts' \<and> not_as_name ts = not_as_name ts' \<and>
      (proper ts \<longrightarrow> proper ts') \<and> (list_all int_ok ts \<longrightarrow> list_all int_ok ts'))"

definition syntax_error :: "error \<Rightarrow> bool" where
  "syntax_error e = (case e of SyntaxError t \<Rightarrow> True | _ \<Rightarrow> False)"

definition blames :: "error \<Rightarrow> token list \<Rightarrow> bool" where
  "blames e ts =
     ((e = PyException \<longrightarrow> \<not> list_all int_ok ts) \<and>
      (not_as_name ts \<longrightarrow> syntax_error e \<or> e = PyException))"

subsection \<open>Reading the store\<close>

text \<open>
  The literals of the store are its facts and the consequent and antecedents of its rules;
  its terms are the arguments of its literals and queries; its names are the names of its
  literals and queries.  \<open>operator_first\<close> is the layout (operator, left, right) of an
  arithmetic node; \<open>signed\<close> holds of a tuple that starts with the integer 1 or -1;
  \<open>has_arguments\<close> and \<open>query_has_arguments\<close> hold of a literal and of a query whose
  argument list is not empty.
\<close>

fun rule_literals :: "pyval \<Rightarrow> pyval list" where
  "rule_literals (PTuple [c, PList as]) = c # as"
| "rule_literals r = []"

definition stored_literals :: "Program \<Rightarrow> pyval list" where
  "stored_literals st = facts st @ concat (map rule_literals (rules st))"

fun literal_args :: "pyval \<Rightarrow> pyval list" where
  "literal_args (PTuple [s, n, PList xs]) = xs"
| "literal_args l = []"

fun query_args :: "pyval \<Rightarrow> pyval list" where
  "query_args (PTuple [n, PList xs]) = xs"
| "query_args q = []"

definition stored_terms :: "Program \<Rightarrow> pyval list" where
  "stored_terms st =
     concat (map literal_args (stored_literals st)) @ concat (map query_args (queries st))"

fun operator_first :: "pyval \<Rightarrow> bool" where
  "operator_first (PTuple [k, l, r]) =
     (k = PStr ''+'' \<or> k = PStr ''-'' \<or> k = PStr ''%'' \<or> k = PStr ''*'')"
| "operator_first v = False"

fun signed :: "pyval \<Rightarrow> bool" where
  "signed (PTuple (PInt s # rest)) = (s = 1 \<or> s = - 1)"
| "signed l = False"




fun has_arguments :: "pyval \<Rightarrow> bool" where
  "has_arguments (PTuple [s, n, PList (x # xs)]) = True"
| "has_arguments l = False"

fun query_has_arguments :: "pyval \<Rightarrow> bool" where
  "query_has_arguments (PTuple [n, PList (x # xs)]) = True"
| "query_has_arguments q = False"

section \<open>Lemmas\<close>

subsection \<open>Rules for evaluating a parse\<close>

lemmas lex_defs = t_ignore_def lower_def upper_def digit_def word_char_def newline_def
  t_IDENT_def t_newline_def lex_match_def

lemmas act_defs = item_def decimal_def int_max_str_digits_def p_declaration_def p_fact_def
  p_query_def p_params_def p_var_expr_def p_predicate_def p_antecedents_def p_rule_def

lemmas parse_defs = raising_def seq_def precedence_def resolve_def operator_def atom_def
  reduce_atom_def var_expr_lr.simps var_expr_def params_lr.simps params_def application_def
  predicate_def antecedents.simps clause_def clause_start_def program.simps parseProgram_def

subsection \<open>Tokens, values and the effect of a parse\<close>

lemma proper_Cons:
  "ts \<noteq> [] \<Longrightarrow> proper (a # ts) = (tok_type a \<noteq> END \<and> tok_type a \<noteq> ERROR \<and> proper ts)"
  by (cases ts) auto

lemma list_all_takeWhile: "list_all P (takeWhile P xs)"
  by (induction xs) auto

lemma lex_match_Token:
  "lex_match c cs lineno = Token t rest \<Longrightarrow>
   lex_ok t \<and> tok_type t \<noteq> END \<and> tok_type t \<noteq> ERROR"
  by (auto simp: lex_match_def lex_ok_def t_IDENT_def list_all_takeWhile split: if_splits)

lemma tokenize_not_Nil: "tokenize s n \<noteq> []"
  by (induction s n rule: tokenize.induct) (auto split: lexed.splits)

lemma tokenize_proper: "proper (tokenize s n)"
  by (induction s n rule: tokenize.induct)
     (auto split: lexed.splits simp: proper_Cons tokenize_not_Nil dest: lex_match_Token)

lemma tokenize_lex_ok: "list_all lex_ok (tokenize s n)"
  by (induction s n rule: tokenize.induct)
     (auto split: lexed.splits simp: lex_ok_def dest: lex_match_Token)

lemma resolve_operator: "operator r \<Longrightarrow> operator k \<Longrightarrow> resolve r k = Reduce"
  by (auto simp: operator_def resolve_def precedence_def)

lemma p_var_expr_binary: "p_var_expr [p0, l, k, r] = Some (PTuple [l, k, r])"
  by (simp add: p_var_expr_def item_def)

lemma p_var_expr_atom:
  "p_var_expr [p0, PStr (tok_value a)] = (if int_ok a then Some (term_of a) else None)"
  by (auto simp: p_var_expr_def item_def term_of_def int_ok_def)

lemma reduce_atom_eq:
  "reduce_atom a ts =
     (if operator (la ts) \<or> la ts = COMMA \<or> la ts = RPAREN
      then if int_ok a then Inr (term_of a) else Inl PyException
      else Inl (fail_at ts))"
  by (simp add: reduce_atom_def p_var_expr_atom raising_def)

lemma reduce_atom_Inr:
  "reduce_atom a ts = Inr r \<longleftrightarrow>
     (operator (la ts) \<or> la ts = COMMA \<or> la ts = RPAREN) \<and> int_ok a \<and> r = term_of a"
  by (auto simp: reduce_atom_eq)

lemma var_expr_lr_reduce:
  "operator (tok_type t) \<Longrightarrow>
   var_expr_lr ((l, t) # stk) v ts = var_expr_lr stk (PTuple [l, PStr (tok_value t), v]) ts"
  by (subst var_expr_lr.simps) (auto simp: resolve_operator p_var_expr_binary)

lemma var_expr_lr_loop: "var_expr_lr [] v ts = var_expr_loop v ts"
proof (induction v ts rule: var_expr_loop.induct)
  case (1 v)
  show ?case by (subst var_expr_lr.simps) (simp add: operator_def)
next
  case (2 v t)
  show ?case by (subst var_expr_lr.simps) simp
next
  case (3 v t a ts)
  show ?case
    using "3.IH"
    by (subst var_expr_lr.simps) (simp add: var_expr_lr_reduce split: sum.splits)
qed

lemma var_expr_eq:
  "var_expr ts =
     (case ts of [] \<Rightarrow> Inl (fail_at [])
      | a # ts' \<Rightarrow>
          if atom (tok_type a) then
            (case reduce_atom a ts' of Inl e \<Rightarrow> Inl e | Inr v \<Rightarrow> var_expr_loop v ts')
          else Inl (fail_at ts))"
  by (simp add: var_expr_def var_expr_lr_loop split: list.splits sum.splits)

lemma wf_term_of: "atom (tok_type a) \<Longrightarrow> lex_ok a \<Longrightarrow> wf_atom (term_of a)"
  by (auto simp: atom_def lex_ok_def term_of_def)

lemma wf_atom_term: "wf_atom v \<Longrightarrow> wf_term v"
  by (induction v rule: wf_term.induct) auto

lemma wf_operator:
  "operator (tok_type t) \<Longrightarrow> lex_ok t \<Longrightarrow> wf_term l \<Longrightarrow> wf_atom r \<Longrightarrow>
   wf_term (PTuple [l, PStr (tok_value t), r])"
  by (auto simp: operator_def lex_ok_def)

lemma var_expr_loop_wf:
  "var_expr_loop v ts = Inr (r, ts') \<Longrightarrow> wf_term v \<Longrightarrow> list_all lex_ok ts \<Longrightarrow>
   wf_term r \<and> list_all lex_ok ts'"
proof (induction v ts arbitrary: r ts' rule: var_expr_loop.induct)
  case (3 v t a ts)
  show ?case
  proof (cases "operator (tok_type t)")
    case True
    with "3.prems" have a: "atom (tok_type a)"
      and red: "reduce_atom a ts = Inr (term_of a)"
      and run: "var_expr_loop (PTuple [v, PStr (tok_value t), term_of a]) ts = Inr (r, ts')"
      by (auto split: if_splits sum.splits simp: reduce_atom_Inr)
    from "3.prems" True a have "wf_term (PTuple [v, PStr (tok_value t), term_of a])"
      by (intro wf_operator wf_term_of) auto
    with "3.IH" [OF True a red run] "3.prems" show ?thesis by simp
  next
    case False
    with "3.prems" show ?thesis by auto
  qed
qed (auto split: if_splits)

lemma var_expr_wf:
  "var_expr ts = Inr (r, ts') \<Longrightarrow> list_all lex_ok ts \<Longrightarrow> wf_term r \<and> list_all lex_ok ts'"
  by (auto simp: var_expr_eq wf_term_of wf_atom_term reduce_atom_Inr
        split: list.splits if_splits sum.splits dest!: var_expr_loop_wf)

lemma expect_Inr:
  "expect k ts = Inr (v, ts') \<longleftrightarrow> (\<exists>t. ts = t # ts' \<and> tok_type t = k \<and> v = PStr (tok_value t))"
  by (cases ts) auto

lemma seq_Inr: "seq m f = Inr r \<longleftrightarrow> (\<exists>v. m = Inr v \<and> f v = Inr r)"
  by (simp add: seq_def split: sum.splits)

lemma raising_Inr: "raising x = Inr v \<longleftrightarrow> x = Some v"
  by (simp add: raising_def split: option.splits)

lemma p_params_first: "p_params [p0, v] = Some (PList [v])"
  by (simp add: p_params_def item_def)

lemma p_params_more: "p_params [p0, PList xs, c, v] = Some (PList (xs @ [v]))"
  by (simp add: p_params_def item_def)

lemma p_params_more_Some:
  "p_params [p0, ps, c, v] = Some r \<longleftrightarrow> (\<exists>xs. ps = PList xs \<and> r = PList (xs @ [v]))"
  by (cases ps) (auto simp: p_params_def item_def)

lemma params_lr_wf:
  "params_lr ps ts = Inr (r, ts') \<Longrightarrow> wf_params ps \<Longrightarrow> list_all lex_ok ts \<Longrightarrow>
   wf_params r \<and> list_all lex_ok ts'"
proof (induction ps ts arbitrary: r ts' rule: params_lr.induct)
  case (1 ps ts)
  show ?case
  proof (cases ts)
    case Nil
    with "1.prems" show ?thesis by (simp add: params_lr.simps)
  next
    case (Cons t ts1)
    show ?thesis
    proof (cases "tok_type t = COMMA")
      case False
      with Cons "1.prems" show ?thesis by (simp add: params_lr.simps)
    next
      case True
      from "1.prems"(1) Cons True obtain v ts2 ps' where
        v: "var_expr ts1 = Inr (v, ts2)" and
        ps': "p_params [PNone, ps, PStr (tok_value t), v] = Some ps'" and
        run: "params_lr ps' ts2 = Inr (r, ts')"
        by (subst (asm) params_lr.simps) (auto split: sum.splits option.splits)
      from v "1.prems"(3) Cons have wv: "wf_term v" and ok2: "list_all lex_ok ts2"
        using var_expr_wf by auto
      from ps' "1.prems"(2) wv have "wf_params ps'"
        by (auto simp: p_params_more_Some)
      with "1.IH" [OF Cons True v refl ps' run] ok2 show ?thesis by simp
    qed
  qed
qed

lemma params_wf:
  "params ts = Inr (r, ts') \<Longrightarrow> list_all lex_ok ts \<Longrightarrow> wf_params r \<and> list_all lex_ok ts'"
  by (auto simp: params_def p_params_first split: sum.splits option.splits
        dest!: var_expr_wf params_lr_wf)

lemma application_cases:
  assumes "application ts = Inr (p, ts')"
  obtains (neg) n i l r ts1 ps where
      "ts = n # i # l # ts1" "tok_type n = NOT" "tok_type i = IDENT" "tok_type l = LPAREN"
      "params ts1 = Inr (ps, r # ts')" "tok_type r = RPAREN"
      "p = [PNone, PStr (tok_value n), PStr (tok_value i), PStr (tok_value l), ps,
            PStr (tok_value r)]"
    | (pos) i l r ts1 ps where
      "ts = i # l # ts1" "tok_type i = IDENT" "tok_type l = LPAREN"
      "params ts1 = Inr (ps, r # ts')" "tok_type r = RPAREN"
      "p = [PNone, PStr (tok_value i), PStr (tok_value l), ps, PStr (tok_value r)]"
  using assms
  by (auto simp: application_def seq_Inr expect_Inr split: if_splits)

lemma p_predicate_neg:
  "p_predicate [p0, PStr ''not'', n, l, ps, r] = Some (PTuple [PInt (- 1), n, ps])"
  by (simp add: p_predicate_def item_def)

lemma p_predicate_pos:
  "v \<noteq> PStr ''not'' \<Longrightarrow> p_predicate [p0, v, l, ps, r] = Some (PTuple [PInt 1, v, ps])"
  by (simp add: p_predicate_def item_def)

lemma p_fact_neg:
  "p_fact [p0, PStr ''not'', n, l, ps, r, d] st =
     Some (st\<lparr>facts := facts st @ [PTuple [PInt (- 1), n, ps]]\<rparr>)"
  by (simp add: p_fact_def item_def)

lemma p_fact_pos:
  "v \<noteq> PStr ''not'' \<Longrightarrow>
   p_fact [p0, v, l, ps, r, d] st = Some (st\<lparr>facts := facts st @ [PTuple [PInt 1, v, ps]]\<rparr>)"
  by (simp add: p_fact_def item_def)

lemma p_query_eq:
  "p_query [p0, q, n, l, ps, r, d] st = Some (st\<lparr>queries := queries st @ [PTuple [n, ps]]\<rparr>)"
  by (simp add: p_query_def item_def)

lemma p_rule_eq:
  "p_rule [p0, c, e, as, d] st = Some (st\<lparr>rules := rules st @ [PTuple [c, as]]\<rparr>)"
  by (simp add: p_rule_def item_def)

lemma p_declaration_eq:
  "tok_value n \<noteq> [] \<Longrightarrow> list_all digit (tok_value n) \<Longrightarrow>
   p_declaration [p0, i, PStr (tok_value n), d] st =
     (if int_ok n
      then Some (st\<lparr>predicates := (predicates st)(i \<mapsto> PInt (decimal (tok_value n)))\<rparr>)
      else None)"
  by (simp add: p_declaration_def item_def int_ok_def)

lemma p_antecedents_one: "p_antecedents [p0, a] = Some (PList [a])"
  by (simp add: p_antecedents_def item_def)

lemma p_antecedents_more_Some:
  "p_antecedents [p0, a, c, r] = Some x \<longleftrightarrow> (\<exists>xs. r = PList xs \<and> x = PList (xs @ [a]))"
  by (cases r) (auto simp: p_antecedents_def item_def)

text \<open>The literal that an application stands for.\<close>

lemma application_literal:
  assumes "application ts = Inr (p, ts')" "list_all lex_ok ts"
  shows "\<exists>lit. p_predicate p = Some lit \<and> wf_literal lit \<and>
    (\<forall>d st. p_fact (p @ [d]) st = Some (st\<lparr>facts := facts st @ [lit]\<rparr>)) \<and>
    list_all lex_ok ts'"
  using assms(1)
proof (cases rule: application_cases)
  case (neg n i l r ts1 ps)
  from neg assms(2) have n: "tok_value n = ''not''" and i: "tok_value i \<noteq> ''not''"
    by (auto simp: lex_ok_def)
  from neg assms(2) have "wf_params ps" "list_all lex_ok ts'"
    using params_wf [of ts1 ps "r # ts'"] by auto
  with neg n i show ?thesis
    by (simp add: p_predicate_neg p_fact_neg)
next
  case (pos i l r ts1 ps)
  from pos assms(2) have i: "tok_value i \<noteq> ''not''"
    by (auto simp: lex_ok_def)
  from pos assms(2) have "wf_params ps" "list_all lex_ok ts'"
    using params_wf [of ts1 ps "r # ts'"] by auto
  with pos i show ?thesis
    by (simp add: p_predicate_pos p_fact_pos)
qed

lemma predicate_wf:
  "predicate ts = Inr (r, ts') \<Longrightarrow> list_all lex_ok ts \<Longrightarrow> wf_literal r \<and> list_all lex_ok ts'"
  by (auto simp: predicate_def seq_Inr raising_Inr dest!: application_literal)

lemma antecedents_wf:
  "antecedents ts = Inr (r, ts') \<Longrightarrow> list_all lex_ok ts \<Longrightarrow>
   wf_antecedents r \<and> list_all lex_ok ts'"
proof (induction ts arbitrary: r ts' rule: antecedents.induct)
  case (1 ts)
  from "1.prems"(1) obtain v1 ts1 where p: "predicate ts = Inr (v1, ts1)"
    by (subst (asm) antecedents.simps) (auto split: sum.splits)
  with "1.prems"(2) have w1: "wf_literal v1" and ok1: "list_all lex_ok ts1"
    using predicate_wf by auto
  show ?case
  proof (cases "\<exists>t ts2. ts1 = t # ts2 \<and> tok_type t = COMMA")
    case False
    with "1.prems"(1) p have "r = PList [v1]" "ts' = ts1"
      by (subst (asm) antecedents.simps;
          auto simp: seq_Inr raising_Inr p_antecedents_one split: list.splits if_splits)+
    with w1 ok1 show ?thesis by simp
  next
    case True
    then obtain t ts2 where ts1: "ts1 = t # ts2" and t: "tok_type t = COMMA" by auto
    from "1.prems"(1) p ts1 t obtain v3 ts3 where
      rest: "antecedents ts2 = Inr (v3, ts3)" and
      r: "p_antecedents [PNone, v1, PStr (tok_value t), v3] = Some r" and ts': "ts' = ts3"
      by (subst (asm) antecedents.simps)
         (auto simp: seq_Inr raising_Inr split: sum.splits)
    from "1.IH" [OF p refl ts1 t rest] ok1 ts1
    have "wf_antecedents v3" "list_all lex_ok ts3" by auto
    with r w1 ts' show ?thesis
      by (auto simp: p_antecedents_more_Some)
  qed
qed

lemma extend_init_left: "extend Program_init d = d"
  by (simp add: extend_def Program_init_def)

lemma extend_init_right: "extend st Program_init = st"
  by (simp add: extend_def Program_init_def)

lemma extend_assoc: "extend (extend st d) e = extend st (extend d e)"
  by (simp add: extend_def)

lemma wf_store_extend: "wf_store (extend st d) \<longleftrightarrow> wf_store st \<and> wf_store d"
  by (auto simp: wf_store_def extend_def)

lemma wf_store_init: "wf_store Program_init"
  by (simp add: wf_store_def Program_init_def)

lemma clause_cases:
  assumes "clause ts = Inr ((pr, p), ts')"
  obtains (Q) q i l r d ts1 ps where
      "ts = q # i # l # ts1" "tok_type q = QUESTION" "tok_type i = IDENT" "tok_type l = LPAREN"
      "params ts1 = Inr (ps, r # d # ts')" "tok_type r = RPAREN" "tok_type d = PERIOD"
      "pr = Query"
      "p = [PNone, PStr (tok_value q), PStr (tok_value i), PStr (tok_value l), ps,
            PStr (tok_value r), PStr (tok_value d)]"
    | (D) i n d where
      "ts = i # n # d # ts'" "tok_type i = IDENT" "tok_type n = NUMBER" "tok_type d = PERIOD"
      "pr = Declaration"
      "p = [PNone, PStr (tok_value i), PStr (tok_value n), PStr (tok_value d)]"
    | (F) ap d where
      "application ts = Inr (ap, d # ts')" "tok_type d = PERIOD" "pr = Fact"
      "p = ap @ [PStr (tok_value d)]"
    | (R) ap e ts1 c as d where
      "application ts = Inr (ap, e # ts1)" "tok_type e = ENTAILED" "p_predicate ap = Some c"
      "antecedents ts1 = Inr (as, d # ts')" "tok_type d = PERIOD" "pr = Rule"
      "p = [PNone, c, PStr (tok_value e), as, PStr (tok_value d)]"
  using assms
  apply (simp add: clause_def split: if_splits)
    apply (auto simp: seq_Inr expect_Inr)[1]
   apply (auto simp: seq_Inr expect_Inr)[1]
  apply (auto simp: seq_Inr expect_Inr raising_Inr split: if_splits)
  done

lemma extend_facts: "st\<lparr>facts := facts st @ xs\<rparr> = extend st (Program_init\<lparr>facts := xs\<rparr>)"
  by (cases st) (simp add: extend_def Program_init_def)

lemma extend_rules: "st\<lparr>rules := rules st @ xs\<rparr> = extend st (Program_init\<lparr>rules := xs\<rparr>)"
  by (cases st) (simp add: extend_def Program_init_def)

lemma extend_queries: "st\<lparr>queries := queries st @ xs\<rparr> = extend st (Program_init\<lparr>queries := xs\<rparr>)"
  by (cases st) (simp add: extend_def Program_init_def)

lemma extend_predicates:
  "st\<lparr>predicates := (predicates st)(k \<mapsto> v)\<rparr> = extend st (Program_init\<lparr>predicates := [k \<mapsto> v]\<rparr>)"
  by (cases st) (simp add: extend_def Program_init_def)

subsection \<open>What a parse leaves unread, and how it fails\<close>

lemma declared_skip: "tok_type a \<noteq> IDENT \<Longrightarrow> declared (a # ts) = declared ts"
  by (cases ts rule: declared.cases) auto

lemma declared_skip2: "tok_type b \<noteq> NUMBER \<Longrightarrow> declared (a # b # ts) = declared (b # ts)"
  by (cases ts) auto

lemma not_as_name_skip: "tok_type a \<noteq> NOT \<Longrightarrow> not_as_name (a # ts) = not_as_name ts"
  by (cases ts) auto

lemma not_as_name_skip2:
  "tok_type b \<noteq> LPAREN \<Longrightarrow> not_as_name (a # b # ts) = not_as_name (b # ts)"
  by simp

lemma proper_tl: "proper (a # ts) \<Longrightarrow> proper ts"
  by (cases ts) auto

lemma scanned_refl: "scanned ts ts"
  by (simp add: scanned_def)

lemma scanned_trans [trans]: "scanned ts ts1 \<Longrightarrow> scanned ts1 ts2 \<Longrightarrow> scanned ts ts2"
  by (simp add: scanned_def)

lemma scanned_skip:
  "tok_type a \<noteq> IDENT \<Longrightarrow> tok_type a \<noteq> NOT \<Longrightarrow> scanned (a # ts) ts"
  by (auto simp: scanned_def declared_skip not_as_name_skip dest: proper_tl)

lemma scanned_step:
  "\<not> (tok_type a = IDENT \<and> tok_type b = NUMBER) \<Longrightarrow>
   \<not> (tok_type a = NOT \<and> tok_type b = LPAREN) \<Longrightarrow> scanned (a # b # ts) (b # ts)"
  by (cases ts) (auto simp: scanned_def)

lemma var_expr_loop_scan:
  "var_expr_loop v ts = Inr (r, ts') \<Longrightarrow> scanned ts ts'"
proof (induction v ts rule: var_expr_loop.induct)
  case (3 v t a ts)
  show ?case
  proof (cases "operator (tok_type t)")
    case True
    with "3.prems" have a: "atom (tok_type a)"
      and red: "reduce_atom a ts = Inr (term_of a)"
      and run: "var_expr_loop (PTuple [v, PStr (tok_value t), term_of a]) ts = Inr (r, ts')"
      by (auto split: if_splits sum.splits simp: reduce_atom_Inr)
    from True have "scanned (t # a # ts) (a # ts)"
      by (intro scanned_skip) (auto simp: operator_def)
    also from a have "scanned (a # ts) ts"
      by (intro scanned_skip) (auto simp: atom_def)
    also note "3.IH" [OF True a red run]
    finally show ?thesis .
  next
    case False
    with "3.prems" show ?thesis by (auto simp: scanned_refl)
  qed
qed (auto split: if_splits simp: scanned_refl)

lemma var_expr_scan: "var_expr ts = Inr (r, ts') \<Longrightarrow> scanned ts ts'"
proof -
  assume run: "var_expr ts = Inr (r, ts')"
  then obtain a ts1 where ts: "ts = a # ts1" and a: "atom (tok_type a)"
    and loop: "var_expr_loop (term_of a) ts1 = Inr (r, ts')"
    by (auto simp: var_expr_eq reduce_atom_Inr split: list.splits if_splits sum.splits)
  from a have "scanned (a # ts1) ts1"
    by (intro scanned_skip) (auto simp: atom_def)
  also note var_expr_loop_scan [OF loop]
  finally show ?thesis using ts by simp
qed

lemma params_lr_scan: "params_lr ps ts = Inr (r, ts') \<Longrightarrow> scanned ts ts'"
proof (induction ps ts arbitrary: r ts' rule: params_lr.induct)
  case (1 ps ts)
  show ?case
  proof (cases "\<exists>t ts1. ts = t # ts1 \<and> tok_type t = COMMA")
    case False
    with "1.prems" have "ts' = ts"
      by (subst (asm) params_lr.simps) (auto split: list.splits if_splits)
    then show ?thesis by (simp add: scanned_refl)
  next
    case True
    then obtain t ts1 where ts: "ts = t # ts1" and t: "tok_type t = COMMA" by auto
    from "1.prems"(1) ts t obtain v ts2 ps' where
      v: "var_expr ts1 = Inr (v, ts2)" and
      ps': "p_params [PNone, ps, PStr (tok_value t), v] = Some ps'" and
      run: "params_lr ps' ts2 = Inr (r, ts')"
      by (subst (asm) params_lr.simps) (auto split: sum.splits option.splits)
    from t have "scanned (t # ts1) ts1" by (intro scanned_skip) auto
    also note var_expr_scan [OF v]
    also note "1.IH" [OF ts t v refl ps' run]
    finally show ?thesis using ts by simp
  qed
qed

lemma params_scan: "params ts = Inr (r, ts') \<Longrightarrow> scanned ts ts'"
proof -
  assume "params ts = Inr (r, ts')"
  then obtain v ts1 ps where v: "var_expr ts = Inr (v, ts1)"
    and run: "params_lr ps ts1 = Inr (r, ts')"
    by (auto simp: params_def split: sum.splits option.splits)
  note var_expr_scan [OF v]
  also note params_lr_scan [OF run]
  finally show ?thesis .
qed

lemma application_scan:
  assumes "application ts = Inr (p, ts')"
  shows "scanned ts ts'"
  using assms
proof (cases rule: application_cases)
  case (neg n i l r ts1 ps)
  have "scanned (n # i # l # ts1) (i # l # ts1)"
    using neg by (intro scanned_step) auto
  also have "scanned (i # l # ts1) (l # ts1)"
    using neg by (intro scanned_step) auto
  also have "scanned (l # ts1) ts1"
    using neg by (intro scanned_skip) auto
  also have "scanned ts1 (r # ts')"
    using neg by (intro params_scan)
  also have "scanned (r # ts') ts'"
    using neg by (intro scanned_skip) auto
  finally show ?thesis
    using neg(1) by simp
next
  case (pos i l r ts1 ps)
  have "scanned (i # l # ts1) (l # ts1)"
    using pos by (intro scanned_step) auto
  also have "scanned (l # ts1) ts1"
    using pos by (intro scanned_skip) auto
  also have "scanned ts1 (r # ts')"
    using pos by (intro params_scan)
  also have "scanned (r # ts') ts'"
    using pos by (intro scanned_skip) auto
  finally show ?thesis
    using pos(1) by simp
qed

lemma predicate_scan: "predicate ts = Inr (r, ts') \<Longrightarrow> scanned ts ts'"
  by (auto simp: predicate_def seq_Inr raising_Inr dest!: application_scan)

lemma antecedents_scan: "antecedents ts = Inr (r, ts') \<Longrightarrow> scanned ts ts'"
proof (induction ts arbitrary: r ts' rule: antecedents.induct)
  case (1 ts)
  from "1.prems"(1) obtain v1 ts1 where p: "predicate ts = Inr (v1, ts1)"
    by (subst (asm) antecedents.simps) (auto split: sum.splits)
  show ?case
  proof (cases "\<exists>t ts2. ts1 = t # ts2 \<and> tok_type t = COMMA")
    case False
    with "1.prems"(1) p have "ts' = ts1"
      by (subst (asm) antecedents.simps)
         (auto simp: seq_Inr raising_Inr split: list.splits if_splits)
    with predicate_scan [OF p] show ?thesis by simp
  next
    case True
    then obtain t ts2 where ts1: "ts1 = t # ts2" and t: "tok_type t = COMMA" by auto
    from "1.prems"(1) p ts1 t obtain v3 where
      rest: "antecedents ts2 = Inr (v3, ts')"
      by (subst (asm) antecedents.simps)
         (auto simp: seq_Inr raising_Inr split: sum.splits)
    note predicate_scan [OF p]
    also have "scanned ts1 ts2"
      using ts1 t by (auto intro: scanned_skip)
    also note "1.IH" [OF p refl ts1 t rest]
    finally show ?thesis .
  qed
qed

lemma clause_effect_intro:
  assumes "scanned ts ts'" "list_all lex_ok ts'"
    "\<forall>st. reduce pr p st = Some (extend st d)" "wf_store d" "predicates d = Map.empty"
  shows "list_all lex_ok ts' \<and> not_as_name ts = not_as_name ts' \<and>
    (proper ts \<longrightarrow> proper ts') \<and> (list_all int_ok ts \<longrightarrow> list_all int_ok ts') \<and>
    ((\<forall>st. reduce pr p st = None) \<and> \<not> list_all int_ok ts \<or>
     (\<exists>d ds. (\<forall>st. reduce pr p st = Some (extend st d)) \<and> wf_store d \<and>
        predicates d = map_of (rev ds) \<and> declared ts = ds @ declared ts'))"
proof -
  from assms(3-5) assms(1)
  have "\<exists>d ds. (\<forall>st. reduce pr p st = Some (extend st d)) \<and> wf_store d \<and>
      predicates d = map_of (rev ds) \<and> declared ts = ds @ declared ts'"
    by (intro exI [of _ d] exI [of _ "[]"]) (simp add: scanned_def)
  with assms(1,2) show ?thesis by (simp add: scanned_def)
qed

text \<open>
  A clause that the parser has shifted: its reduction raises, and then the clause has a
  number that \<^verbatim>\<open>int\<close> refuses, or it extends the store, whatever the store is.
\<close>

lemma clause_effect_scan:
  assumes "clause ts = Inr ((pr, p), ts')" "list_all lex_ok ts"
  shows "list_all lex_ok ts' \<and> not_as_name ts = not_as_name ts' \<and>
    (proper ts \<longrightarrow> proper ts') \<and> (list_all int_ok ts \<longrightarrow> list_all int_ok ts') \<and>
    ((\<forall>st. reduce pr p st = None) \<and> \<not> list_all int_ok ts \<or>
     (\<exists>d ds. (\<forall>st. reduce pr p st = Some (extend st d)) \<and> wf_store d \<and>
        predicates d = map_of (rev ds) \<and> declared ts = ds @ declared ts'))"
  using assms(1)
proof (cases rule: clause_cases)
  case (Q q i l r d ts1 ps)
  from Q assms(2) have i: "tok_value i \<noteq> ''not''"
    by (auto simp: lex_ok_def)
  from Q assms(2) have wf: "wf_params ps" "list_all lex_ok ts'"
    using params_wf [of ts1 ps "r # d # ts'"] by auto
  have "scanned (q # i # l # ts1) (i # l # ts1)"
    using Q by (intro scanned_step) auto
  also have "scanned (i # l # ts1) (l # ts1)"
    using Q by (intro scanned_step) auto
  also have "scanned (l # ts1) ts1"
    using Q by (intro scanned_skip) auto
  also have "scanned ts1 (r # d # ts')"
    using Q by (intro params_scan)
  also have "scanned (r # d # ts') (d # ts')"
    using Q by (intro scanned_skip) auto
  also have "scanned (d # ts') ts'"
    using Q by (intro scanned_skip) auto
  finally have sc: "scanned ts ts'" using Q(1) by simp
  show ?thesis
  proof (rule clause_effect_intro [OF sc wf(2)])
    show "\<forall>st. reduce pr p st =
        Some (extend st (Program_init\<lparr>queries := [PTuple [PStr (tok_value i), ps]]\<rparr>))"
      using Q by (simp add: p_query_eq extend_queries)
    show "wf_store (Program_init\<lparr>queries := [PTuple [PStr (tok_value i), ps]]\<rparr>)"
      using i wf by (simp add: wf_store_def Program_init_def)
    show "predicates (Program_init\<lparr>queries := [PTuple [PStr (tok_value i), ps]]\<rparr>) = Map.empty"
      by (simp add: Program_init_def)
  qed
next
  case (D i n d)
  from D assms(2) have n: "tok_value n \<noteq> []" "list_all digit (tok_value n)"
    and ok: "list_all lex_ok ts'"
    by (auto simp: lex_ok_def)
  have "scanned (n # d # ts') (d # ts')"
    using D by (intro scanned_step) auto
  also have "scanned (d # ts') ts'"
    using D by (intro scanned_skip) auto
  finally have sc: "scanned (n # d # ts') ts'" .
  from D have "declared ts =
      [(PStr (tok_value i), PInt (decimal (tok_value n)))] @ declared (n # d # ts')"
    and "not_as_name ts = not_as_name (n # d # ts')"
    and "proper ts \<longrightarrow> proper (n # d # ts')"
    and "list_all int_ok ts \<longrightarrow> list_all int_ok (n # d # ts')"
    by simp_all
  with sc have dec: "declared ts =
      [(PStr (tok_value i), PInt (decimal (tok_value n)))] @ declared ts'"
    and rest: "not_as_name ts = not_as_name ts'" "proper ts \<longrightarrow> proper ts'"
      "list_all int_ok ts \<longrightarrow> list_all int_ok ts'"
    by (simp_all add: scanned_def)
  show ?thesis
  proof (cases "int_ok n")
    case True
    with D n dec
    have "\<exists>d ds. (\<forall>st. reduce pr p st = Some (extend st d)) \<and> wf_store d \<and>
        predicates d = map_of (rev ds) \<and> declared ts = ds @ declared ts'"
      by (intro exI [of _ "Program_init\<lparr>predicates :=
            [PStr (tok_value i) \<mapsto> PInt (decimal (tok_value n))]\<rparr>"]
            exI [of _ "[(PStr (tok_value i), PInt (decimal (tok_value n)))]"])
         (simp add: p_declaration_eq extend_predicates wf_store_def Program_init_def)
    with ok rest show ?thesis by simp
  next
    case False
    with D n have "\<forall>st. reduce pr p st = None"
      by (simp add: p_declaration_eq)
    moreover from False D have "\<not> list_all int_ok ts" by simp
    ultimately show ?thesis using ok rest by simp
  qed
next
  case (F ap d)
  from application_literal [OF F(1) assms(2)] obtain lit where
    lit: "wf_literal lit" "\<forall>d st. p_fact (ap @ [d]) st = Some (st\<lparr>facts := facts st @ [lit]\<rparr>)"
    and ok: "list_all lex_ok (d # ts')"
    by blast
  note application_scan [OF F(1)]
  also have "scanned (d # ts') ts'"
    using F by (intro scanned_skip) auto
  finally have sc: "scanned ts ts'" .
  from ok have ok': "list_all lex_ok ts'" by simp
  show ?thesis
  proof (rule clause_effect_intro [OF sc ok'])
    show "\<forall>st. reduce pr p st = Some (extend st (Program_init\<lparr>facts := [lit]\<rparr>))"
      using F lit by (simp add: extend_facts)
    show "wf_store (Program_init\<lparr>facts := [lit]\<rparr>)"
      using lit by (simp add: wf_store_def Program_init_def)
    show "predicates (Program_init\<lparr>facts := [lit]\<rparr>) = Map.empty"
      by (simp add: Program_init_def)
  qed
next
  case (R ap e ts1 c as d)
  from application_literal [OF R(1) assms(2)] obtain lit where
    lit: "p_predicate ap = Some lit" "wf_literal lit" and ok: "list_all lex_ok (e # ts1)"
    by blast
  from R(4) ok have wf: "wf_antecedents as" "list_all lex_ok ts'"
    using antecedents_wf [of ts1 as "d # ts'"] by auto
  note application_scan [OF R(1)]
  also have "scanned (e # ts1) ts1"
    using R by (intro scanned_skip) auto
  also note antecedents_scan [OF R(4)]
  also have "scanned (d # ts') ts'"
    using R by (intro scanned_skip) auto
  finally have sc: "scanned ts ts'" .
  show ?thesis
  proof (rule clause_effect_intro [OF sc wf(2)])
    show "\<forall>st. reduce pr p st = Some (extend st (Program_init\<lparr>rules := [PTuple [c, as]]\<rparr>))"
      using R by (simp add: p_rule_eq extend_rules)
    show "wf_store (Program_init\<lparr>rules := [PTuple [c, as]]\<rparr>)"
      using R lit wf by (simp add: wf_store_def Program_init_def)
    show "predicates (Program_init\<lparr>rules := [PTuple [c, as]]\<rparr>) = Map.empty"
      by (simp add: Program_init_def)
  qed
qed

lemma proper_END: "proper ts \<Longrightarrow> la ts = END \<Longrightarrow> declared ts = [] \<and> \<not> not_as_name ts"
  by (cases ts rule: proper.cases) auto

lemma program_effect:
  "list_all lex_ok ts \<Longrightarrow> proper ts \<Longrightarrow>
   \<exists>d. wf_store d \<and> (\<forall>st. program ts st = (fst (program ts Program_init), extend st d)) \<and>
     (fst (program ts Program_init) = None \<longrightarrow>
        predicates d = map_of (rev (declared ts)) \<and> \<not> not_as_name ts)"
proof (induction "length ts" arbitrary: ts rule: less_induct)
  case less
  have stop: ?case
    if "\<forall>st. program ts st = (if la ts = END then None else Some e, st)" for e
  proof -
    from that have a: "\<forall>st. program ts st = (fst (program ts Program_init), extend st Program_init)"
      by (simp add: extend_init_right)
    have b: "fst (program ts Program_init) = None \<longrightarrow>
        predicates Program_init = map_of (rev (declared ts)) \<and> \<not> not_as_name ts"
      using that proper_END [OF less.prems(2)] by (auto simp: Program_init_def)
    show ?thesis
      by (intro exI [of _ Program_init] conjI) (rule wf_store_init, rule a, rule b)
  qed
  show ?case
  proof (cases "la ts \<noteq> END \<and> clause_start (la ts)")
    case False
    then have "\<forall>st. program ts st = (if la ts = END then None else Some (fail_at ts), st)"
      by (auto simp: program.simps [of ts])
    then show ?thesis by (rule stop)
  next
    case start: True
    show ?thesis
    proof (cases "clause ts")
      case (Inl e)
      with start have "\<forall>st. program ts st = (if la ts = END then None else Some e, st)"
        by (auto simp: program.simps [of ts])
      then show ?thesis by (rule stop)
    next
      case (Inr x)
      then obtain pr p ts' where cl: "clause ts = Inr ((pr, p), ts')"
        by (cases x) auto
      from clause_effect_scan [OF cl less.prems(1)] have
        ok1: "list_all lex_ok ts'" and
        nn: "not_as_name ts = not_as_name ts'" and
        pr: "proper ts \<longrightarrow> proper ts'" and
        eff: "(\<forall>st. reduce pr p st = None) \<or>
          (\<exists>d ds. (\<forall>st. reduce pr p st = Some (extend st d)) \<and> wf_store d \<and>
             predicates d = map_of (rev ds) \<and> declared ts = ds @ declared ts')"
        by blast+
      from pr less.prems(2) ok1 have ok: "list_all lex_ok ts'" "proper ts'"
        by simp_all
      consider (rejected) "\<not> (clause_start (la ts') \<or> la ts' = END)"
        | (raises) "clause_start (la ts') \<or> la ts' = END" "\<forall>st. reduce pr p st = None"
        | (reduces) d ds where "clause_start (la ts') \<or> la ts' = END"
            "\<forall>st. reduce pr p st = Some (extend st d)" "wf_store d"
            "predicates d = map_of (rev ds)" "declared ts = ds @ declared ts'"
        using eff by blast
      then show ?thesis
      proof cases
        case rejected
        with start cl
        have "\<forall>st. program ts st = (if la ts = END then None else Some (fail_at ts'), st)"
          by (auto simp: program.simps [of ts])
        then show ?thesis by (rule stop)
      next
        case raises
        with start cl
        have "\<forall>st. program ts st = (if la ts = END then None else Some PyException, st)"
          by (auto simp: program.simps [of ts])
        then show ?thesis by (rule stop)
      next
        case reduces
        note True = reduces(1) and d = reduces(2,3) and ds = reduces(4,5) nn
        from cl have "length ts' < length ts" by (rule clause_length)
        from less.hyps [OF this ok] obtain d' where
          d': "wf_store d'"
            "\<forall>st. program ts' st = (fst (program ts' Program_init), extend st d')"
            "fst (program ts' Program_init) = None \<longrightarrow>
               predicates d' = map_of (rev (declared ts')) \<and> \<not> not_as_name ts'"
          by (elim exE conjE)
        from start cl True d(1) have step: "\<And>st. program ts st = program ts' (extend st d)"
          by (auto simp: program.simps [of ts])
        have a: "\<forall>st. program ts st = (fst (program ts Program_init), extend st (extend d d'))"
          by (simp add: step d'(2) [rule_format, of "extend _ d"] extend_assoc)
        from d(2) d'(1) have w: "wf_store (extend d d')"
          by (simp add: wf_store_extend)
        have "program ts Program_init = program ts' d"
          by (simp add: step extend_init_left)
        then have "fst (program ts Program_init) = fst (program ts' Program_init)"
          by (simp add: d'(2) [rule_format, of d])
        moreover have "predicates (extend d d') = predicates d ++ predicates d'"
          by (simp add: extend_def)
        ultimately have b: "fst (program ts Program_init) = None \<longrightarrow>
            predicates (extend d d') = map_of (rev (declared ts)) \<and> \<not> not_as_name ts"
          using d'(3) ds by simp
        show ?thesis
          by (intro exI [of _ "extend d d'"] conjI) (rule w, rule a, rule b)
      qed
    qed
  qed
qed

lemma fail_at_kind:
  assumes "list_all lex_ok ts" "proper ts"
  shows "syntax_error (fail_at ts) \<or>
    (\<exists>t. ts = [t] \<and> tok_type t = ERROR \<and> fail_at ts \<noteq> PyException)"
proof (cases ts)
  case Nil
  then show ?thesis by (simp add: syntax_error_def)
next
  case (Cons t ts1)
  show ?thesis
  proof (cases "tok_type t = ERROR")
    case True
    with assms Cons have "ts1 = []" "tok_value t \<noteq> []"
      by (cases ts1; simp add: lex_ok_def)+
    with True Cons show ?thesis by (auto split: list.splits)
  next
    case False
    with Cons show ?thesis by (simp add: syntax_error_def)
  qed
qed

lemma fail_at_blames: "list_all lex_ok ts \<Longrightarrow> proper ts \<Longrightarrow> blames (fail_at ts) ts"
  using fail_at_kind [of ts] by (auto simp: blames_def syntax_error_def)

lemma fail_at_blames_Cons:
  "list_all lex_ok ts \<Longrightarrow> proper (a # ts) \<Longrightarrow> blames (fail_at ts) (a # ts)"
proof -
  assume ok: "list_all lex_ok ts" and pr: "proper (a # ts)"
  from pr have "proper ts" by (rule proper_tl)
  from fail_at_kind [OF ok this] show ?thesis
    by (auto simp: blames_def syntax_error_def)
qed

lemma blames_Cons: "blames e ts \<Longrightarrow> tok_type a \<noteq> NOT \<Longrightarrow> blames e (a # ts)"
  by (simp add: blames_def not_as_name_skip)

lemma blames_Cons2: "blames e (b # ts) \<Longrightarrow> tok_type b \<noteq> LPAREN \<Longrightarrow> blames e (a # b # ts)"
  by (simp add: blames_def)

lemma blames_scanned: "scanned ts ts' \<Longrightarrow> blames e ts' \<Longrightarrow> blames e ts"
  by (auto simp: blames_def scanned_def)

lemma blames_exception: "\<not> int_ok a \<Longrightarrow> blames PyException (a # ts)"
  by (simp add: blames_def)

lemma reduce_atom_blames:
  "reduce_atom a ts = Inl e \<Longrightarrow> list_all lex_ok ts \<Longrightarrow> proper (a # ts) \<Longrightarrow>
   tok_type a \<noteq> NOT \<Longrightarrow> blames e (a # ts)"
  by (auto simp: reduce_atom_eq blames_exception split: if_splits
        intro: blames_Cons fail_at_blames dest: proper_tl)

lemma blames_EOF: "blames (SyntaxError None) ts"
  by (simp add: blames_def syntax_error_def)

lemma expect_Inl:
  "expect k ts = Inl e \<longleftrightarrow> e = fail_at ts \<and> (ts = [] \<or> tok_type (hd ts) \<noteq> k)"
  by (cases ts) auto

lemma seq_Inl: "seq m f = Inl e \<longleftrightarrow> m = Inl e \<or> (\<exists>v. m = Inr v \<and> f v = Inl e)"
  by (simp add: seq_def split: sum.splits)

lemma raising_Inl: "raising x = Inl e \<longleftrightarrow> x = None \<and> e = PyException"
  by (auto simp: raising_def split: option.splits)

lemma var_expr_loop_blames:
  "var_expr_loop v ts = Inl e \<Longrightarrow> list_all lex_ok ts \<Longrightarrow> proper ts \<Longrightarrow> blames e ts"
proof (induction v ts rule: var_expr_loop.induct)
  case (1 v)
  then show ?case by simp
next
  case (2 v t)
  then show ?case by (auto split: if_splits simp: blames_EOF)
next
  case (3 v t a ts)
  from "3.prems" have t: "operator (tok_type t)" by (auto split: if_splits)
  then have t': "tok_type t \<noteq> NOT" by (auto simp: operator_def)
  from "3.prems" have ok: "list_all lex_ok (a # ts)" "proper (a # ts)"
    by (auto dest: proper_tl)
  show ?case
  proof (cases "atom (tok_type a)")
    case True
    then have a': "tok_type a \<noteq> NOT" by (auto simp: atom_def)
    have "blames e (a # ts)"
    proof (cases "reduce_atom a ts")
      case (Inl e')
      with "3.prems" t True have "e' = e" by simp
      with Inl ok a' show ?thesis by (auto intro: reduce_atom_blames)
    next
      case (Inr r)
      with "3.prems" t True
      have "var_expr_loop (PTuple [v, PStr (tok_value t), r]) ts = Inl e" by simp
      from "3.IH" [OF t True Inr this] ok have "blames e ts" by (auto dest: proper_tl)
      then show ?thesis using a' by (rule blames_Cons)
    qed
    then show ?thesis using t' by (rule blames_Cons)
  next
    case False
    with "3.prems" t have "e = fail_at (a # ts)" by simp
    with blames_Cons [OF fail_at_blames [OF ok] t'] show ?thesis by simp
  qed
qed

lemma var_expr_blames:
  "var_expr ts = Inl e \<Longrightarrow> list_all lex_ok ts \<Longrightarrow> proper ts \<Longrightarrow> blames e ts"
proof (cases ts)
  case Nil
  assume "var_expr ts = Inl e"
  with Nil show ?thesis by (auto simp: var_expr_eq blames_EOF)
next
  case (Cons a ts1)
  assume run: "var_expr ts = Inl e" and ok: "list_all lex_ok ts" "proper ts"
  show ?thesis
  proof (cases "atom (tok_type a)")
    case True
    then have a': "tok_type a \<noteq> NOT" by (auto simp: atom_def)
    show ?thesis
    proof (cases "reduce_atom a ts1")
      case (Inl e')
      with run Cons True have "e' = e" by (simp add: var_expr_eq)
      with Inl ok Cons a' show ?thesis by (auto intro: reduce_atom_blames)
    next
      case (Inr r)
      with run Cons True have "var_expr_loop r ts1 = Inl e" by (simp add: var_expr_eq)
      with ok Cons have "blames e ts1" by (auto intro: var_expr_loop_blames dest: proper_tl)
      then have "blames e (a # ts1)" using a' by (rule blames_Cons)
      then show ?thesis using Cons by simp
    qed
  next
    case False
    with run Cons have "e = fail_at ts" by (simp add: var_expr_eq)
    with ok show ?thesis by (simp add: fail_at_blames)
  qed
qed

lemma scanned_proper: "scanned ts ts' \<Longrightarrow> proper ts \<Longrightarrow> proper ts'"
  by (simp add: scanned_def)

lemma params_lr_blames:
  "params_lr ps ts = Inl e \<Longrightarrow> wf_params ps \<Longrightarrow> list_all lex_ok ts \<Longrightarrow> proper ts \<Longrightarrow>
   blames e ts"
proof (induction ps ts rule: params_lr.induct)
  case (1 ps ts)
  from "1.prems"(1) obtain t ts1 where ts: "ts = t # ts1" and t: "tok_type t = COMMA"
    by (subst (asm) params_lr.simps) (auto split: list.splits if_splits)
  from ts "1.prems" have ok1: "list_all lex_ok ts1" "proper ts1"
    by (auto dest: proper_tl)
  have "blames e ts1"
  proof (cases "var_expr ts1")
    case (Inl e')
    with "1.prems"(1) ts t have "e' = e"
      by (subst (asm) params_lr.simps) simp
    with Inl ok1 show ?thesis by (auto intro: var_expr_blames)
  next
    case (Inr x)
    then obtain v ts2 where v: "var_expr ts1 = Inr (v, ts2)" by (cases x) auto
    from var_expr_wf [OF v ok1(1)] have wv: "wf_term v" and ok2: "list_all lex_ok ts2"
      by auto
    from "1.prems"(2) obtain xs where ps: "ps = PList xs" by (cases ps) auto
    then have ps': "p_params [PNone, ps, PStr (tok_value t), v] = Some (PList (xs @ [v]))"
      by (simp add: p_params_more)
    with "1.prems"(1) ts t v have run: "params_lr (PList (xs @ [v])) ts2 = Inl e"
      by (subst (asm) params_lr.simps) simp
    from "1.prems"(2) ps wv have "wf_params (PList (xs @ [v]))" by simp
    from "1.IH" [OF ts t v refl ps' run this ok2]
      scanned_proper [OF var_expr_scan [OF v] ok1(2)]
    have "blames e ts2" by simp
    with var_expr_scan [OF v] show ?thesis by (rule blames_scanned)
  qed
  from blames_Cons [OF this, of t] t ts show ?case by simp
qed

lemma params_blames:
  assumes "params ts = Inl e" "list_all lex_ok ts" "proper ts"
  shows "blames e ts"
proof (cases "var_expr ts")
  case (Inl e')
  with assms(1) have "e' = e" by (simp add: params_def)
  with Inl assms show ?thesis by (auto intro: var_expr_blames)
next
  case (Inr x)
  then obtain v ts1 where v: "var_expr ts = Inr (v, ts1)" by (cases x) auto
  from var_expr_wf [OF v assms(2)] have wv: "wf_term v" and ok1: "list_all lex_ok ts1"
    by auto
  from assms(1) v have run: "params_lr (PList [v]) ts1 = Inl e"
    by (simp add: params_def p_params_first)
  from wv have "wf_params (PList [v])" by simp
  from params_lr_blames [OF run this ok1] scanned_proper [OF var_expr_scan [OF v] assms(3)]
  have "blames e ts1" by simp
  with var_expr_scan [OF v] show ?thesis by (rule blames_scanned)
qed

text \<open>A failure after the opening parenthesis of an application.\<close>

lemma blames_arguments:
  assumes "params ts = Inl e \<or> (\<exists>ps ts'. params ts = Inr (ps, ts') \<and> e = fail_at ts' \<and>
      la ts' \<noteq> RPAREN)"
    "list_all lex_ok ts" "proper ts"
  shows "blames e ts"
  using assms(1)
proof (elim disjE exE conjE)
  assume "params ts = Inl e"
  with assms show ?thesis by (auto intro: params_blames)
next
  fix ps ts'
  assume run: "params ts = Inr (ps, ts')" and e: "e = fail_at ts'"
  from params_wf [OF run assms(2)] scanned_proper [OF params_scan [OF run] assms(3)] e
  have "blames e ts'" by (simp add: fail_at_blames)
  with params_scan [OF run] show ?thesis by (rule blames_scanned)
qed

lemma application_blames:
  assumes "application ts = Inl e" "list_all lex_ok ts" "proper ts"
  shows "blames e ts"
proof (cases "la ts = NOT")
  case True
  then obtain n ts1 where ts: "ts = n # ts1" and n: "tok_type n = NOT"
    by (cases ts) auto
  from ts assms have ok1: "list_all lex_ok ts1" "proper ts1" by (auto dest: proper_tl)
  show ?thesis
  proof (cases "la ts1 = IDENT")
    case False
    with assms(1) True ts n have "e = fail_at ts1"
      by (cases ts1) (auto simp: application_def seq_Inl seq_Inr expect_Inl expect_Inr)
    with ok1 assms(3) ts show ?thesis by (simp add: fail_at_blames_Cons)
  next
    case i: True
    then obtain i ts2 where ts1: "ts1 = i # ts2" and i: "tok_type i = IDENT"
      by (cases ts1) auto
    from ts1 ok1 have ok2: "list_all lex_ok ts2" "proper ts2" "proper (i # ts2)"
      by (auto dest: proper_tl)
    show ?thesis
    proof (cases "la ts2 = LPAREN")
      case False
      with assms(1) True ts n ts1 i have "e = fail_at ts2"
        by (cases ts2) (auto simp: application_def seq_Inl seq_Inr expect_Inl expect_Inr)
      with ok2 have "blames e (i # ts2)" by (simp add: fail_at_blames_Cons)
      from blames_Cons2 [OF this, of n] i ts ts1 show ?thesis by simp
    next
      case l: True
      then obtain l ts3 where ts2: "ts2 = l # ts3" and l: "tok_type l = LPAREN"
        by (cases ts2) auto
      from ts2 ok2 have ok3: "list_all lex_ok ts3" "proper ts3" by (auto dest: proper_tl)
      from assms(1) True ts n ts1 i ts2 l
      have "params ts3 = Inl e \<or> (\<exists>ps ts'. params ts3 = Inr (ps, ts') \<and> e = fail_at ts' \<and>
          la ts' \<noteq> RPAREN)"
        by (auto simp: application_def seq_Inl seq_Inr expect_Inl expect_Inr
            split: prod.splits) (case_tac b; auto)+
      from blames_arguments [OF this ok3] have b3: "blames e ts3" .
      have b2: "blames e (l # ts3)" using blames_Cons [OF b3, of l] l by simp
      have b1: "blames e (i # l # ts3)" using blames_Cons [OF b2, of i] i by simp
      have "blames e (n # i # l # ts3)" using blames_Cons2 [OF b1, of n] i by simp
      with ts ts1 ts2 show ?thesis by simp
    qed
  qed
next
  case False
  show ?thesis
  proof (cases "la ts = IDENT")
    case False
    with assms(1) \<open>la ts \<noteq> NOT\<close> have "e = fail_at ts"
      by (cases ts) (auto simp: application_def seq_Inl seq_Inr expect_Inl expect_Inr)
    with assms show ?thesis by (simp add: fail_at_blames)
  next
    case True
    then obtain i ts2 where ts1: "ts = i # ts2" and i: "tok_type i = IDENT"
      by (cases ts) auto
    from ts1 assms have ok2: "list_all lex_ok ts2" "proper ts2" "proper (i # ts2)"
      by (auto dest: proper_tl)
    show ?thesis
    proof (cases "la ts2 = LPAREN")
      case False
      with assms(1) ts1 i have "e = fail_at ts2"
        by (cases ts2) (auto simp: application_def seq_Inl seq_Inr expect_Inl expect_Inr)
      with ok2 have "blames e (i # ts2)" by (simp add: fail_at_blames_Cons)
      with ts1 show ?thesis by simp
    next
      case l: True
      then obtain l ts3 where ts2: "ts2 = l # ts3" and l: "tok_type l = LPAREN"
        by (cases ts2) auto
      from ts2 ok2 have ok3: "list_all lex_ok ts3" "proper ts3" by (auto dest: proper_tl)
      from assms(1) ts1 i ts2 l
      have "params ts3 = Inl e \<or> (\<exists>ps ts'. params ts3 = Inr (ps, ts') \<and> e = fail_at ts' \<and>
          la ts' \<noteq> RPAREN)"
        by (auto simp: application_def seq_Inl seq_Inr expect_Inl expect_Inr
            split: prod.splits) (case_tac b; auto)+
      from blames_arguments [OF this ok3] have b3: "blames e ts3" .
      have b2: "blames e (l # ts3)" using blames_Cons [OF b3, of l] l by simp
      have "blames e (i # l # ts3)" using blames_Cons [OF b2, of i] i by simp
      with ts1 ts2 show ?thesis by simp
    qed
  qed
qed

lemma predicate_blames:
  assumes "predicate ts = Inl e" "list_all lex_ok ts" "proper ts"
  shows "blames e ts"
proof (cases "application ts")
  case (Inl e')
  with assms(1) have "e' = e" by (simp add: predicate_def seq_def)
  with Inl assms show ?thesis by (auto intro: application_blames)
next
  case (Inr x)
  then obtain p ts' where ap: "application ts = Inr (p, ts')" by (cases x) auto
  from application_literal [OF ap assms(2)] obtain lit where "p_predicate p = Some lit"
    by blast
  with assms(1) ap show ?thesis by (simp add: predicate_def seq_def raising_def)
qed

lemma antecedents_blames:
  "antecedents ts = Inl e \<Longrightarrow> list_all lex_ok ts \<Longrightarrow> proper ts \<Longrightarrow> blames e ts"
proof (induction ts rule: antecedents.induct)
  case (1 ts)
  show ?case
  proof (cases "predicate ts")
    case (Inl e')
    with "1.prems"(1) have "e' = e" by (subst (asm) antecedents.simps) simp
    with Inl "1.prems" show ?thesis by (auto intro: predicate_blames)
  next
    case (Inr x)
    then obtain v1 ts1 where p: "predicate ts = Inr (v1, ts1)" by (cases x) auto
    from predicate_wf [OF p "1.prems"(2)] have w1: "wf_literal v1" and ok1: "list_all lex_ok ts1"
      by auto
    from scanned_proper [OF predicate_scan [OF p] "1.prems"(3)] have pr1: "proper ts1" .
    from "1.prems"(1) p obtain t ts2 where ts1: "ts1 = t # ts2" and t: "tok_type t = COMMA"
      by (subst (asm) antecedents.simps)
         (auto simp: seq_Inl raising_Inl p_antecedents_one split: list.splits if_splits)
    from ts1 ok1 pr1 have ok2: "list_all lex_ok ts2" "proper ts2" by (auto dest: proper_tl)
    have "blames e ts2"
    proof (cases "antecedents ts2")
      case (Inl e')
      with "1.prems"(1) p ts1 t have "e' = e" by (subst (asm) antecedents.simps) simp
      with "1.IH" [OF p refl ts1 t] Inl ok2 show ?thesis by simp
    next
      case (Inr y)
      then obtain v3 ts3 where rest: "antecedents ts2 = Inr (v3, ts3)" by (cases y) auto
      from antecedents_wf [OF rest ok2(1)] obtain xs where "v3 = PList xs"
        by (cases v3) auto
      then have "p_antecedents [PNone, v1, PStr (tok_value t), v3] = Some (PList (xs @ [v1]))"
        by (simp add: p_antecedents_more_Some)
      with "1.prems"(1) p ts1 t rest show ?thesis
        by (subst (asm) antecedents.simps) (simp add: seq_def raising_def)
    qed
    from blames_Cons [OF this, of t] t ts1 have "blames e ts1" by simp
    with predicate_scan [OF p] show ?thesis by (rule blames_scanned)
  qed
qed

lemma blames_after:
  "scanned ts ts' \<Longrightarrow> list_all lex_ok ts' \<Longrightarrow> proper ts \<Longrightarrow> blames (fail_at ts') ts"
  by (blast intro: blames_scanned fail_at_blames scanned_proper)

lemma blames_after_Cons:
  assumes "scanned ts (r # ts')" "list_all lex_ok (r # ts')" "proper ts"
  shows "blames (fail_at ts') ts"
proof -
  from scanned_proper [OF assms(1,3)] assms(2) have "blames (fail_at ts') (r # ts')"
    by (simp add: fail_at_blames_Cons)
  with assms(1) show ?thesis by (rule blames_scanned)
qed

lemma clause_blames:
  assumes "clause ts = Inl e" "list_all lex_ok ts" "proper ts"
  shows "blames e ts"
proof -
  consider (Q) "la ts = QUESTION"
    | (D) "la ts \<noteq> QUESTION" "la ts = IDENT \<and> la (tl ts) = NUMBER"
    | (A) "la ts \<noteq> QUESTION" "\<not> (la ts = IDENT \<and> la (tl ts) = NUMBER)"
    by blast
  then show ?thesis
  proof cases
    case Q
    then obtain q ts1 where ts: "ts = q # ts1" and q: "tok_type q = QUESTION"
      by (cases ts) auto
    from ts assms have ok1: "list_all lex_ok ts1" "proper ts1" by (auto dest: proper_tl)
    show ?thesis
    proof (cases "la ts1 = IDENT")
      case False
      with assms(1) Q ts q have "e = fail_at ts1"
        by (cases ts1) (auto simp: clause_def seq_Inl seq_Inr expect_Inl expect_Inr)
      with ok1 assms(3) ts show ?thesis by (simp add: fail_at_blames_Cons)
    next
      case True
      then obtain i ts2 where ts1: "ts1 = i # ts2" and i: "tok_type i = IDENT"
        by (cases ts1) auto
      from ts1 ok1 have ok2: "list_all lex_ok ts2" "proper ts2" "proper (i # ts2)"
        by (auto dest: proper_tl)
      show ?thesis
      proof (cases "la ts2 = LPAREN")
        case False
        with assms(1) Q ts q ts1 i have "e = fail_at ts2"
          by (cases ts2) (auto simp: clause_def seq_Inl seq_Inr expect_Inl expect_Inr)
        with ok2 have "blames e (i # ts2)" by (simp add: fail_at_blames_Cons)
        from blames_Cons2 [OF this, of q] i ts ts1 show ?thesis by simp
      next
        case True
        then obtain l ts3 where ts2: "ts2 = l # ts3" and l: "tok_type l = LPAREN"
          by (cases ts2) auto
        from ts2 ok2 have ok3: "list_all lex_ok ts3" "proper ts3" by (auto dest: proper_tl)
        have b3: "blames e ts3"
        proof (cases "params ts3")
          case (Inl e')
          with assms(1) Q ts q ts1 i ts2 l have "e' = e"
            by (auto simp: clause_def seq_Inl seq_Inr expect_Inl expect_Inr)
          with Inl ok3 show ?thesis by (auto intro: params_blames)
        next
          case (Inr x)
          then obtain ps ts4 where ps: "params ts3 = Inr (ps, ts4)" by (cases x) auto
          from params_wf [OF ps ok3(1)] have ok4: "list_all lex_ok ts4" by simp
          show ?thesis
          proof (cases "la ts4 = RPAREN")
            case False
            with assms(1) Q ts q ts1 i ts2 l ps have "e = fail_at ts4"
              by (cases ts4) (auto simp: clause_def seq_Inl seq_Inr expect_Inl expect_Inr)
            with blames_after [OF params_scan [OF ps] ok4 ok3(2)] show ?thesis by simp
          next
            case True
            then obtain r ts5 where ts4: "ts4 = r # ts5" and r: "tok_type r = RPAREN"
              by (cases ts4) auto
            from assms(1) Q ts q ts1 i ts2 l ps ts4 r have "e = fail_at ts5"
              by (auto simp: clause_def seq_Inl seq_Inr expect_Inl expect_Inr)
            with blames_after_Cons [OF params_scan [OF ps, unfolded ts4] ok4 [unfolded ts4]
                ok3(2)]
            show ?thesis by simp
          qed
        qed
        have b2: "blames e (l # ts3)" using blames_Cons [OF b3, of l] l by simp
        have b1: "blames e (i # l # ts3)" using blames_Cons [OF b2, of i] i by simp
        have "blames e (q # i # l # ts3)" using blames_Cons [OF b1, of q] q by simp
        with ts ts1 ts2 show ?thesis by simp
      qed
    qed
  next
    case D
    then obtain i n ts2 where ts: "ts = i # n # ts2" and i: "tok_type i = IDENT"
      and n: "tok_type n = NUMBER"
      by (cases ts rule: proper.cases) auto
    from ts assms have ok2: "list_all lex_ok ts2" "proper (n # ts2)" by (auto dest: proper_tl)
    from assms(1) D ts i n have "e = fail_at ts2"
      by (auto simp: clause_def seq_Inl seq_Inr expect_Inl expect_Inr)
    with ok2 have "blames e (n # ts2)" by (simp add: fail_at_blames_Cons)
    from blames_Cons2 [OF this, of i] n ts show ?thesis by simp
  next
    case A
    show ?thesis
    proof (cases "application ts")
      case (Inl e')
      with assms(1) A have "e' = e" by (auto simp: clause_def seq_def)
      with Inl assms show ?thesis by (auto intro: application_blames)
    next
      case (Inr x)
      then obtain ap ts1 where ap: "application ts = Inr (ap, ts1)" by (cases x) auto
      from application_literal [OF ap assms(2)] obtain c where
        c: "p_predicate ap = Some c" and ok1: "list_all lex_ok ts1"
        by blast
      note sc1 = application_scan [OF ap]
      from scanned_proper [OF sc1 assms(3)] have pr1: "proper ts1" .
      from assms(1) A ap have "la ts1 \<noteq> PERIOD"
        by (cases ts1) (auto simp: clause_def seq_def split: if_splits)
      show ?thesis
      proof (cases "la ts1 = ENTAILED")
        case False
        with assms(1) A ap \<open>la ts1 \<noteq> PERIOD\<close> have "e = fail_at ts1"
          by (auto simp: clause_def seq_def)
        with blames_after [OF sc1 ok1 assms(3)] show ?thesis by simp
      next
        case True
        then obtain en ts2 where ts1: "ts1 = en # ts2" and en: "tok_type en = ENTAILED"
          by (cases ts1) auto
        from ts1 ok1 pr1 have ok2: "list_all lex_ok ts2" "proper ts2" by (auto dest: proper_tl)
        have "blames e ts2"
        proof (cases "antecedents ts2")
          case (Inl e')
          with assms(1) A ap c ts1 en have "e' = e"
            by (auto simp: clause_def seq_def raising_def)
          with Inl ok2 show ?thesis by (auto intro: antecedents_blames)
        next
          case (Inr y)
          then obtain as ts3 where as: "antecedents ts2 = Inr (as, ts3)" by (cases y) auto
          from antecedents_wf [OF as ok2(1)] have ok3: "list_all lex_ok ts3" by simp
          from assms(1) A ap c ts1 en as have "e = fail_at ts3"
            by (cases ts3) (auto simp: clause_def seq_def raising_def split: if_splits)
          with blames_after [OF antecedents_scan [OF as] ok3 ok2(2)] show ?thesis by simp
        qed
        from blames_Cons [OF this, of en] en ts1 have "blames e ts1" by simp
        with sc1 show ?thesis by (rule blames_scanned)
      qed
    qed
  qed
qed

lemma program_blames:
  "fst (program ts st) = Some e \<Longrightarrow> list_all lex_ok ts \<Longrightarrow> proper ts \<Longrightarrow> blames e ts"
proof (induction "length ts" arbitrary: ts st rule: less_induct)
  case less
  from less.prems(1) have notend: "la ts \<noteq> END"
    by (auto simp: program.simps [of ts])
  show ?case
  proof (cases "clause_start (la ts)")
    case False
    with less.prems(1) notend have "e = fail_at ts"
      by (auto simp: program.simps [of ts])
    with less.prems show ?thesis by (simp add: fail_at_blames)
  next
    case start: True
    show ?thesis
    proof (cases "clause ts")
      case (Inl e')
      with less.prems(1) notend start have "e' = e"
        by (auto simp: program.simps [of ts])
      with Inl less.prems show ?thesis by (auto intro: clause_blames)
    next
      case (Inr x)
      then obtain pr p ts' where cl: "clause ts = Inr ((pr, p), ts')"
        by (cases x) auto
      from clause_effect_scan [OF cl less.prems(2)] have
        ok1: "list_all lex_ok ts'" and
        nn: "not_as_name ts = not_as_name ts'" and
        pr: "proper ts \<longrightarrow> proper ts'" and
        io: "list_all int_ok ts \<longrightarrow> list_all int_ok ts'" and
        eff: "(\<forall>st. reduce pr p st = None) \<and> \<not> list_all int_ok ts \<or>
          (\<exists>d. \<forall>st. reduce pr p st = Some (extend st d))"
        by blast+
      from pr less.prems(3) have pr': "proper ts'" by simp
      consider (rejected) "\<not> (clause_start (la ts') \<or> la ts' = END)"
        | (raises) "clause_start (la ts') \<or> la ts' = END" "\<forall>st. reduce pr p st = None"
            "\<not> list_all int_ok ts"
        | (reduces) d where "clause_start (la ts') \<or> la ts' = END"
            "\<forall>st. reduce pr p st = Some (extend st d)"
        using eff by blast
      then show ?thesis
      proof cases
        case rejected
        with less.prems(1) notend start cl have "e = fail_at ts'"
          by (auto simp: program.simps [of ts])
        with ok1 pr' have "blames e ts'" by (simp add: fail_at_blames)
        with nn io show ?thesis by (auto simp: blames_def)
      next
        case raises
        with less.prems(1) notend start cl have "e = PyException"
          by (auto simp: program.simps [of ts])
        with raises(3) show ?thesis by (simp add: blames_def)
      next
        case reduces
        with less.prems(1) notend start cl
        have "fst (program ts' (extend st d)) = Some e"
          by (auto simp: program.simps [of ts])
        from less.hyps [OF clause_length [OF cl] this ok1 pr'] have "blames e ts'" .
        with nn io show ?thesis by (auto simp: blames_def)
      qed
    qed
  qed
qed

lemma parse_effect:
  "\<exists>d. wf_store d \<and>
     (\<forall>st. parseProgram src st = (fst (parseProgram src Program_init), extend st d)) \<and>
     (fst (parseProgram src Program_init) = None \<longrightarrow>
        predicates d = map_of (rev (declared (tokenize src 1))) \<and>
        \<not> not_as_name (tokenize src 1))"
  unfolding parseProgram_def
  by (rule program_effect) (rule tokenize_lex_ok, rule tokenize_proper)

lemma parse_frame:
  "parseProgram src st =
     (fst (parseProgram src Program_init), extend st (snd (parseProgram src Program_init)))"
proof -
  from parse_effect [of src] obtain d where
    d: "\<forall>st. parseProgram src st = (fst (parseProgram src Program_init), extend st d)"
    by (elim exE conjE)
  from d [rule_format, of Program_init] have e: "snd (parseProgram src Program_init) = d"
    by (metis extend_init_left snd_conv)
  show ?thesis unfolding e by (rule d [rule_format])
qed

lemma parse_wf: "wf_store (snd (parseProgram src Program_init))"
proof -
  from parse_effect [of src] obtain d where
    w: "wf_store d" and
    d: "\<forall>st. parseProgram src st = (fst (parseProgram src Program_init), extend st d)"
    by (elim exE conjE)
  from d [rule_format, of Program_init] have "snd (parseProgram src Program_init) = d"
    by (metis extend_init_left snd_conv)
  with w show ?thesis by simp
qed

lemma parse_accepted:
  assumes "fst (parseProgram src st) = None"
  shows "predicates (snd (parseProgram src st)) =
      predicates st ++ map_of (rev (declared (tokenize src 1)))"
    and "\<not> not_as_name (tokenize src 1)"
proof -
  from parse_effect [of src] obtain d where
    d: "\<forall>st. parseProgram src st = (fst (parseProgram src Program_init), extend st d)" and
    a: "fst (parseProgram src Program_init) = None \<longrightarrow>
        predicates d = map_of (rev (declared (tokenize src 1))) \<and>
        \<not> not_as_name (tokenize src 1)"
    by (elim exE conjE)
  from assms d [rule_format, of st] have "fst (parseProgram src Program_init) = None"
    by simp
  with a have p: "predicates d = map_of (rev (declared (tokenize src 1)))"
    and n: "\<not> not_as_name (tokenize src 1)"
    by simp_all
  from n show "\<not> not_as_name (tokenize src 1)" .
  from d [rule_format, of st] have "snd (parseProgram src st) = extend st d" by simp
  with p show "predicates (snd (parseProgram src st)) =
      predicates st ++ map_of (rev (declared (tokenize src 1)))"
    by (simp add: extend_def)
qed

lemma parse_blames:
  "fst (parseProgram src st) = Some e \<Longrightarrow> blames e (tokenize src 1)"
  unfolding parseProgram_def
  by (erule program_blames) (rule tokenize_lex_ok, rule tokenize_proper)

lemma parse_no_exception:
  "list_all int_ok (tokenize src 1) \<Longrightarrow> fst (parseProgram src st) \<noteq> Some PyException"
  using parse_blames [of src st PyException] by (auto simp: blames_def)

lemma stored_literals_extend:
  "stored_literals (extend st d) = facts st @ facts d @
     concat (map rule_literals (rules st)) @ concat (map rule_literals (rules d))"
  by (simp add: stored_literals_def extend_def)

lemma wf_literal_shape:
  "wf_literal l \<Longrightarrow> \<exists>s n xs. l = PTuple [PInt s, PStr n, PList xs] \<and> (s = 1 \<or> s = - 1) \<and>
     n \<noteq> ''not'' \<and> xs \<noteq> [] \<and> list_all wf_term xs"
  by (induction l rule: wf_literal.induct) (auto elim: wf_params.elims)

lemma wf_rule_shape:
  "wf_rule r \<Longrightarrow> \<exists>c as. r = PTuple [c, PList as] \<and> wf_literal c \<and> as \<noteq> [] \<and>
     list_all wf_literal as"
  by (induction r rule: wf_rule.induct) (auto elim: wf_antecedents.elims)

lemma wf_query_shape:
  "wf_query q \<Longrightarrow> \<exists>n xs. q = PTuple [PStr n, PList xs] \<and> n \<noteq> ''not'' \<and> xs \<noteq> [] \<and>
     list_all wf_term xs"
  by (induction q rule: wf_query.induct) (auto elim: wf_params.elims)

lemma wf_rule_literals: "wf_rule r \<Longrightarrow> x \<in> set (rule_literals r) \<Longrightarrow> wf_literal x"
  by (drule wf_rule_shape) (auto simp: list_all_iff)

lemma wf_store_literals: "wf_store d \<Longrightarrow> list_all wf_literal (stored_literals d)"
  by (auto simp: wf_store_def stored_literals_def list_all_iff dest: wf_rule_literals)

lemma antecedents_last:
  "predicate ts = Inr (v1, ts1) \<Longrightarrow> la ts1 \<noteq> COMMA \<Longrightarrow> antecedents ts = Inr (PList [v1], ts1)"
  by (subst antecedents.simps)
     (auto simp: seq_def raising_def p_antecedents_one split: list.splits)

lemma antecedents_earlier:
  "predicate ts = Inr (v1, t # ts2) \<Longrightarrow> tok_type t = COMMA \<Longrightarrow>
   antecedents ts2 = Inr (PList vs, ts3) \<Longrightarrow> antecedents ts = Inr (PList (vs @ [v1]), ts3)"
  by (subst antecedents.simps)
     (simp add: seq_def raising_def p_antecedents_def item_def)

lemma literal_args_wf: "wf_literal l \<Longrightarrow> x \<in> set (literal_args l) \<Longrightarrow> wf_term x"
  by (drule wf_literal_shape) (auto simp: list_all_iff)

lemma query_args_wf: "wf_query q \<Longrightarrow> x \<in> set (query_args q) \<Longrightarrow> wf_term x"
  by (drule wf_query_shape) (auto simp: list_all_iff)

lemma stored_terms_extend:
  "set (stored_terms (extend st d)) = set (stored_terms st) \<union> set (stored_terms d)"
  by (auto simp: stored_terms_def stored_literals_def extend_def)

lemma stored_terms_wf: "wf_store d \<Longrightarrow> list_all wf_term (stored_terms d)"
  using wf_store_literals [of d]
  by (auto simp: stored_terms_def list_all_iff wf_store_def
        dest: literal_args_wf query_args_wf)

text \<open>
  A \<^verbatim>\<open>var_expr\<close> of an atom \<open>a\<close> and pairs \<open>tbs\<close> of an operator and an atom, with a
  token after it that is no operator.  An atom is reduced when the token after it is
  read, so an atom before the last one that \<^verbatim>\<open>int\<close> refuses raises first, then a token
  after the last atom that cannot follow a \<^verbatim>\<open>var_expr\<close> is a syntax error, then the last
  atom may raise, and otherwise the value is the fold from the left.  \<open>f\<close> is what the
  parser will make of the term of \<open>a\<close>: a node with what is before \<open>a\<close>.
\<close>

lemma var_expr_loop_fold:
  "atom (tok_type a) \<Longrightarrow>
   list_all (\<lambda>(t, b). operator (tok_type t) \<and> atom (tok_type b)) tbs \<Longrightarrow>
   \<not> operator (la rest) \<Longrightarrow>
   (case reduce_atom a (concat (map (\<lambda>(t, b). [t, b]) tbs) @ rest) of
      Inl e \<Rightarrow> Inl e
    | Inr r \<Rightarrow> var_expr_loop (f r) (concat (map (\<lambda>(t, b). [t, b]) tbs) @ rest)) =
     (if \<not> list_all int_ok (butlast (a # map snd tbs)) then Inl PyException
      else if la rest \<noteq> COMMA \<and> la rest \<noteq> RPAREN then Inl (fail_at rest)
      else if \<not> int_ok (last (a # map snd tbs)) then Inl PyException
      else Inr (foldl (\<lambda>l (t, b). PTuple [l, PStr (tok_value t), term_of b]) (f (term_of a)) tbs,
             rest))"
proof (induction tbs arbitrary: a f)
  case Nil
  then show ?case
    by (cases rest rule: proper.cases) (auto simp: reduce_atom_eq)
next
  case (Cons tb tbs)
  obtain t b where tb: "tb = (t, b)" by (cases tb)
  with Cons.prems have t: "operator (tok_type t)" and b: "atom (tok_type b)"
    and tbs: "list_all (\<lambda>(t, b). operator (tok_type t) \<and> atom (tok_type b)) tbs"
    by simp_all
  show ?case
  proof (cases "int_ok a")
    case False
    with t tb show ?thesis by (simp add: reduce_atom_eq)
  next
    case True
    from Cons.IH [OF b tbs Cons.prems(3), of "\<lambda>r. PTuple [f (term_of a), PStr (tok_value t), r]"]
      True t b tb
    show ?thesis by (simp add: reduce_atom_eq [of a])
  qed
qed

lemma term_symbols_term_of: "term_symbols (term_of a) = [term_of a]"
  by (simp add: term_of_def)

lemma var_expr_loop_symbols:
  "var_expr_loop v ts = Inr (r, ts') \<Longrightarrow>
   \<exists>us. ts = us @ ts' \<and> term_symbols r = term_symbols v @ map symbol_of us"
proof (induction v ts rule: var_expr_loop.induct)
  case (1 v)
  then show ?case by simp
next
  case (2 v t)
  then show ?case by (auto split: if_splits)
next
  case (3 v t a ts)
  show ?case
  proof (cases "operator (tok_type t)")
    case True
    with "3.prems" have a: "atom (tok_type a)"
      and red: "reduce_atom a ts = Inr (term_of a)"
      and run: "var_expr_loop (PTuple [v, PStr (tok_value t), term_of a]) ts = Inr (r, ts')"
      by (auto split: if_splits sum.splits simp: reduce_atom_Inr)
    from "3.IH" [OF True a red run] obtain us where
      us: "ts = us @ ts'"
        "term_symbols r =
           term_symbols (PTuple [v, PStr (tok_value t), term_of a]) @ map symbol_of us"
      by blast
    from True have "symbol_of t = PStr (tok_value t)"
      by (auto simp: symbol_of_def operator_def atom_def)
    moreover from a have "symbol_of a = term_of a"
      by (simp add: symbol_of_def)
    ultimately show ?thesis
      using us by (intro exI [of _ "t # a # us"]) (simp add: term_symbols_term_of)
  next
    case False
    with "3.prems" show ?thesis by auto
  qed
qed

lemma var_expr_symbols:
  assumes "var_expr ts = Inr (v, ts')"
  shows "\<exists>us. ts = us @ ts' \<and> term_symbols v = map symbol_of us"
proof -
  from assms obtain a ts1 where ts: "ts = a # ts1" and a: "atom (tok_type a)"
    and loop: "var_expr_loop (term_of a) ts1 = Inr (v, ts')"
    by (auto simp: var_expr_eq reduce_atom_Inr split: list.splits if_splits sum.splits)
  from var_expr_loop_symbols [OF loop] obtain us where
    "ts1 = us @ ts'" "term_symbols v = term_symbols (term_of a) @ map symbol_of us"
    by blast
  with ts a show ?thesis
    by (intro exI [of _ "a # us"]) (simp add: term_symbols_term_of symbol_of_def)
qed

lemma map_of_last_wins:
  "k \<notin> fst ` set ds2 \<Longrightarrow> map_of (rev (ds1 @ (k, a) # ds2)) k = Some a"
  by (simp add: map_add_def map_of_eq_None_iff [THEN iffD2] split: option.splits)

lemma signed_wf: "wf_literal l \<Longrightarrow> signed l"
  by (drule wf_literal_shape) auto

lemma stored_literals_set_extend:
  "set (stored_literals (extend st d)) = set (stored_literals st) \<union> set (stored_literals d)"
  by (auto simp: stored_literals_def extend_def)

lemma parse_literals:
  "set (stored_literals (snd (parseProgram src st))) =
     set (stored_literals st) \<union> set (stored_literals (snd (parseProgram src Program_init)))"
  by (subst parse_frame) (simp add: stored_literals_set_extend)

lemma parse_literals_wf:
  "l \<in> set (stored_literals (snd (parseProgram src Program_init))) \<Longrightarrow> wf_literal l"
  using wf_store_literals [OF parse_wf, of src] by (simp add: list_all_iff)

lemma parse_queries:
  "queries (snd (parseProgram src st)) =
     queries st @ queries (snd (parseProgram src Program_init))"
  by (subst parse_frame) (simp add: extend_def)

lemma parse_queries_wf:
  "q \<in> set (queries (snd (parseProgram src Program_init))) \<Longrightarrow> wf_query q"
  using parse_wf [of src] by (simp add: wf_store_def list_all_iff)






lemma has_arguments_wf: "wf_literal l \<Longrightarrow> has_arguments l"
  by (drule wf_literal_shape) (auto simp: neq_Nil_conv)

lemma query_has_arguments_wf: "wf_query q \<Longrightarrow> query_has_arguments q"
  by (drule wf_query_shape) (auto simp: neq_Nil_conv)

subsection \<open>A number that int refuses\<close>






section \<open>Properties\<close>

subsection \<open>The arithmetic table\<close>

text \<open>
  C8.  For all integers \<open>x\<close> and \<open>y\<close>, the table gives \<open>x + y\<close> for \<^verbatim>\<open>+\<close>, \<open>x - y\<close> for
  \<^verbatim>\<open>-\<close>, \<open>x mod y\<close> for \<^verbatim>\<open>%\<close> when \<open>y\<close> is not zero (the remainder of floor division,
  with the sign of the divisor), and for \<^verbatim>\<open>*\<close> the product made an integer, which is
  \<open>x * y\<close>.
\<close>

theorem arithmetics_table:
  "arithmetic ''+'' x y = Some (x + y) \<and>
   arithmetic ''-'' x y = Some (x - y) \<and>
   (y \<noteq> 0 \<longrightarrow> arithmetic ''%'' x y = Some (x mod y)) \<and>
   arithmetic ''*'' x y = Some (x * y)"
  by (simp add: arithmetic_def arithmetics_def)

theorem arithmetics_table_witness:
  "arithmetic ''+'' 7 (- 2) = Some 5 \<and>
   arithmetic ''-'' 7 (- 2) = Some 9 \<and>
   arithmetic ''%'' 7 (- 2) = Some (- 1) \<and>
   arithmetic ''*'' 7 (- 2) = Some (- 14)"
  using arithmetics_table [of 7 "- 2"] by simp

subsection \<open>The example of the specification\<close>

text \<open>
  C4.  Parsing \<^verbatim>\<open>likes(Mary, Tom). likes(Tom, Ann). ?likes(Mary, X).\<close> into the empty
  store is accepted and leaves the two facts, in this order, no rule, and the one query;
  the query clause alone adds a query and neither a fact nor a rule.
\<close>

theorem parse_likes_example:
  "parseProgram ''likes(Mary, Tom). likes(Tom, Ann). ?likes(Mary, X).'' Program_init =
     (None,
      \<lparr>predicates = Map.empty,
       rules = [],
       facts = [PTuple [PInt 1, PStr ''likes'', PList [PStr ''Mary'', PStr ''Tom'']],
                PTuple [PInt 1, PStr ''likes'', PList [PStr ''Tom'', PStr ''Ann'']]],
       queries = [PTuple [PStr ''likes'', PList [PStr ''Mary'', PStr ''X'']]]\<rparr>) \<and>
   parseProgram ''?likes(Mary, X).'' Program_init =
     (None,
      \<lparr>predicates = Map.empty,
       rules = [],
       facts = [],
       queries = [PTuple [PStr ''likes'', PList [PStr ''Mary'', PStr ''X'']]]\<rparr>)"
  by (simp add: lex_defs act_defs parse_defs Program_init_def)

subsection \<open>The antecedents of a rule\<close>

text \<open>
  C1.  The claim is that a rule \<^verbatim>\<open>c :- a1, ..., an.\<close> is stored with its antecedents in
  source order.  \<^verbatim>\<open>p_antecedents\<close> copies the antecedents after the first predicate and
  appends the first predicate to the copy (\<open>antecedents_earlier\<close>), so the stored
  sequence is in the reverse of the source order: \<^verbatim>\<open>h(X) :- a(X), b(X), c(X).\<close> is stored
  with the antecedents \<^verbatim>\<open>c(X)\<close>, \<^verbatim>\<open>b(X)\<close>, \<^verbatim>\<open>a(X)\<close>.
\<close>

theorem rule_antecedents_reversed:
  "parseProgram ''h(X) :- a(X), b(X), c(X).'' Program_init =
     (None,
      \<lparr>predicates = Map.empty,
       rules = [PTuple [PTuple [PInt 1, PStr ''h'', PList [PStr ''X'']],
                        PList [PTuple [PInt 1, PStr ''c'', PList [PStr ''X'']],
                               PTuple [PInt 1, PStr ''b'', PList [PStr ''X'']],
                               PTuple [PInt 1, PStr ''a'', PList [PStr ''X'']]]]],
       facts = [],
       queries = []\<rparr>)"
  by (simp add: lex_defs act_defs parse_defs Program_init_def)

subsection \<open>Arithmetic terms\<close>

text \<open>
  C2, as stated: every arithmetic node is the 3-tuple (operator, left, right), the operator
  symbol first.  The term \<^verbatim>\<open>X + Y\<close> is stored as the tuple \<^verbatim>\<open>("X", "+", "Y")\<close>, whose
  first component is the left operand.
\<close>

theorem term_node_operator_first_counterexample:
  "parseProgram ''f(X + Y).'' Program_init =
     (None,
      \<lparr>predicates = Map.empty,
       rules = [],
       facts = [PTuple [PInt 1, PStr ''f'', PList [PTuple [PStr ''X'', PStr ''+'', PStr ''Y'']]]],
       queries = []\<rparr>) \<and>
   \<not> operator_first (PTuple [PStr ''X'', PStr ''+'', PStr ''Y''])"
  by (simp add: lex_defs act_defs parse_defs Program_init_def)

text \<open>
  C2, amended: every arithmetic node that \<^verbatim>\<open>var_expr\<close> builds is the 3-tuple
  (left, operator, right).  The action makes of the values \<open>l\<close>, \<open>k\<close> and \<open>r\<close> of the
  symbols of a production \<^verbatim>\<open>var_expr : var_expr PLUS var_expr\<close> (or of another operator),
  the left operand, the operator and the right operand, the tuple \<open>(l, k, r)\<close>.  The value
  of every \<^verbatim>\<open>var_expr\<close> parsed from tokens of the lexer is a term (\<open>wf_term\<close>): an
  integer, a variable name, or a tuple whose second component is one of the operator
  symbols \<^verbatim>\<open>+\<close>, \<^verbatim>\<open>-\<close>, \<^verbatim>\<open>%\<close>, \<^verbatim>\<open>*\<close>, whose first component is a term again and whose
  third component is an integer or a variable name; and its operands and operators, read
  from the first component of each node over the second to the third, are those of the
  tokens the parser has read for it, in source order: what is left of an operator in the
  source is the first component of its node, and what is right of it the third.  Every
  argument of every fact, rule literal and query a parse adds to the store is such a term.
\<close>

theorem term_node_operator_second:
  "p_var_expr [p0, l, k, r] = Some (PTuple [l, k, r]) \<and>
   (list_all lex_ok ts \<and> var_expr ts = Inr (v, ts') \<longrightarrow>
      wf_term v \<and> (\<exists>us. ts = us @ ts' \<and> term_symbols v = map symbol_of us)) \<and>
   (list_all wf_term (stored_terms st) \<longrightarrow>
      list_all wf_term (stored_terms (snd (parseProgram src st))))"
proof (intro conjI impI)
  show "p_var_expr [p0, l, k, r] = Some (PTuple [l, k, r])"
    by (rule p_var_expr_binary)
next
  assume "list_all lex_ok ts \<and> var_expr ts = Inr (v, ts')"
  then show "wf_term v" using var_expr_wf [of ts v ts'] by simp
next
  assume "list_all lex_ok ts \<and> var_expr ts = Inr (v, ts')"
  then show "\<exists>us. ts = us @ ts' \<and> term_symbols v = map symbol_of us"
    using var_expr_symbols [of ts v ts'] by simp
next
  assume "list_all wf_term (stored_terms st)"
  moreover have "list_all wf_term (stored_terms (snd (parseProgram src Program_init)))"
    by (rule stored_terms_wf) (rule parse_wf)
  ultimately show "list_all wf_term (stored_terms (snd (parseProgram src st)))"
    by (subst parse_frame) (auto simp: list_all_iff stored_terms_extend)
qed

theorem term_node_operator_second_witness:
  "p_var_expr [PNone, PStr ''X'', PStr ''+'', PStr ''Y''] =
     Some (PTuple [PStr ''X'', PStr ''+'', PStr ''Y'']) \<and>
   list_all lex_ok
     [LexToken VAR ''X'' 1, LexToken PLUS ''+'' 1, LexToken VAR ''Y'' 1,
      LexToken TIMES ''*'' 1, LexToken NUMBER ''2'' 1, LexToken RPAREN '')'' 1] \<and>
   var_expr
     [LexToken VAR ''X'' 1, LexToken PLUS ''+'' 1, LexToken VAR ''Y'' 1,
      LexToken TIMES ''*'' 1, LexToken NUMBER ''2'' 1, LexToken RPAREN '')'' 1] =
     Inr (PTuple [PTuple [PStr ''X'', PStr ''+'', PStr ''Y''], PStr ''*'', PInt 2],
          [LexToken RPAREN '')'' 1]) \<and>
   wf_term (PTuple [PTuple [PStr ''X'', PStr ''+'', PStr ''Y''], PStr ''*'', PInt 2]) \<and>
   term_symbols (PTuple [PTuple [PStr ''X'', PStr ''+'', PStr ''Y''], PStr ''*'', PInt 2]) =
     map symbol_of
       [LexToken VAR ''X'' 1, LexToken PLUS ''+'' 1, LexToken VAR ''Y'' 1,
        LexToken TIMES ''*'' 1, LexToken NUMBER ''2'' 1] \<and>
   list_all wf_term (stored_terms Program_init) \<and>
   stored_terms (snd (parseProgram ''f(X + Y * 2).'' Program_init)) =
     [PTuple [PTuple [PStr ''X'', PStr ''+'', PStr ''Y''], PStr ''*'', PInt 2]]"
  using term_node_operator_second [of PNone "PStr ''X''" "PStr ''+''" "PStr ''Y''"
      "[LexToken VAR ''X'' 1, LexToken PLUS ''+'' 1, LexToken VAR ''Y'' 1,
        LexToken TIMES ''*'' 1, LexToken NUMBER ''2'' 1, LexToken RPAREN '')'' 1]"
      "PTuple [PTuple [PStr ''X'', PStr ''+'', PStr ''Y''], PStr ''*'', PInt 2]"
      "[LexToken RPAREN '')'' 1]" Program_init "''f(X + Y * 2).''"]
  by (simp add: lex_defs act_defs parse_defs Program_init_def stored_terms_def
      stored_literals_def lex_ok_def symbol_of_def term_of_def)

subsection \<open>Associativity of the arithmetic operators\<close>

text \<open>
  C3.  The four operators are on one level of the precedence table and left associative:
  between reducing a production of any of them and shifting any of them, the parser
  reduces.  So a \<^verbatim>\<open>var_expr\<close> of several operators, an atom followed by pairs of an
  operator and an atom, is the fold from the left of its operands, whatever the operators
  are.  This is its value whenever it has one: when the token after it is a comma or a
  closing parenthesis and \<^verbatim>\<open>int\<close> converts every number in it.  Otherwise the parse ends
  there: with the ValueError of \<^verbatim>\<open>int\<close> at the first number of more than 4300 digits, if
  the parser gets to reduce it, and with a syntax error at a token after the last atom that
  cannot follow a \<^verbatim>\<open>var_expr\<close>.  In particular \<^verbatim>\<open>X + Y * Z\<close> is stored as
  \<^verbatim>\<open>(("X", "+", "Y"), "*", "Z")\<close> and not as \<^verbatim>\<open>("X", "+", ("Y", "*", "Z"))\<close>.
\<close>

theorem var_expr_left_assoc:
  "(operator r \<and> operator k \<longrightarrow> resolve r k = Reduce) \<and>
   (atom (tok_type a) \<and>
    list_all (\<lambda>(t, b). operator (tok_type t) \<and> atom (tok_type b)) tbs \<and>
    \<not> operator (la rest) \<longrightarrow>
    var_expr (a # concat (map (\<lambda>(t, b). [t, b]) tbs) @ rest) =
      (if \<not> list_all int_ok (butlast (a # map snd tbs)) then Inl PyException
       else if la rest \<noteq> COMMA \<and> la rest \<noteq> RPAREN then Inl (fail_at rest)
       else if \<not> int_ok (last (a # map snd tbs)) then Inl PyException
       else Inr (foldl (\<lambda>l (t, b). PTuple [l, PStr (tok_value t), term_of b]) (term_of a) tbs,
              rest))) \<and>
   parseProgram ''f(X + Y * Z).'' Program_init =
     (None,
      \<lparr>predicates = Map.empty,
       rules = [],
       facts = [PTuple [PInt 1, PStr ''f'',
                  PList [PTuple [PTuple [PStr ''X'', PStr ''+'', PStr ''Y''], PStr ''*'',
                                 PStr ''Z'']]]],
       queries = []\<rparr>) \<and>
   facts (snd (parseProgram ''f(X + Y * Z).'' Program_init)) \<noteq>
     [PTuple [PInt 1, PStr ''f'',
        PList [PTuple [PStr ''X'', PStr ''+'',
                       PTuple [PStr ''Y'', PStr ''*'', PStr ''Z'']]]]]"
proof (intro conjI impI)
  assume "operator r \<and> operator k"
  then show "resolve r k = Reduce" by (simp add: resolve_operator)
next
  assume "atom (tok_type a) \<and>
    list_all (\<lambda>(t, b). operator (tok_type t) \<and> atom (tok_type b)) tbs \<and>
    \<not> operator (la rest)"
  then have a: "atom (tok_type a)"
    and tbs: "list_all (\<lambda>(t, b). operator (tok_type t) \<and> atom (tok_type b)) tbs"
    and rest: "\<not> operator (la rest)"
    by simp_all
  from a have "var_expr (a # concat (map (\<lambda>(t, b). [t, b]) tbs) @ rest) =
      (case reduce_atom a (concat (map (\<lambda>(t, b). [t, b]) tbs) @ rest) of
         Inl e \<Rightarrow> Inl e
       | Inr r \<Rightarrow> var_expr_loop r (concat (map (\<lambda>(t, b). [t, b]) tbs) @ rest))"
    by (simp add: var_expr_eq)
  also note var_expr_loop_fold [OF a tbs rest, of "\<lambda>r. r"]
  finally show "var_expr (a # concat (map (\<lambda>(t, b). [t, b]) tbs) @ rest) =
      (if \<not> list_all int_ok (butlast (a # map snd tbs)) then Inl PyException
       else if la rest \<noteq> COMMA \<and> la rest \<noteq> RPAREN then Inl (fail_at rest)
       else if \<not> int_ok (last (a # map snd tbs)) then Inl PyException
       else Inr (foldl (\<lambda>l (t, b). PTuple [l, PStr (tok_value t), term_of b]) (term_of a) tbs,
              rest))" .
next
  show "parseProgram ''f(X + Y * Z).'' Program_init =
     (None,
      \<lparr>predicates = Map.empty,
       rules = [],
       facts = [PTuple [PInt 1, PStr ''f'',
                  PList [PTuple [PTuple [PStr ''X'', PStr ''+'', PStr ''Y''], PStr ''*'',
                                 PStr ''Z'']]]],
       queries = []\<rparr>)"
    by (simp add: lex_defs act_defs parse_defs Program_init_def)
  then show "facts (snd (parseProgram ''f(X + Y * Z).'' Program_init)) \<noteq>
     [PTuple [PInt 1, PStr ''f'',
        PList [PTuple [PStr ''X'', PStr ''+'',
                       PTuple [PStr ''Y'', PStr ''*'', PStr ''Z'']]]]]"
    by simp
qed

theorem var_expr_left_assoc_witness:
  "resolve PLUS TIMES = Reduce \<and>
   var_expr [LexToken VAR ''X'' 1, LexToken PLUS ''+'' 1, LexToken VAR ''Y'' 1,
             LexToken TIMES ''*'' 1, LexToken VAR ''Z'' 1, LexToken RPAREN '')'' 1] =
     Inr (PTuple [PTuple [PStr ''X'', PStr ''+'', PStr ''Y''], PStr ''*'', PStr ''Z''],
          [LexToken RPAREN '')'' 1])"
  using var_expr_left_assoc [of PLUS TIMES "LexToken VAR ''X'' 1"
      "[(LexToken PLUS ''+'' 1, LexToken VAR ''Y'' 1),
        (LexToken TIMES ''*'' 1, LexToken VAR ''Z'' 1)]"
      "[LexToken RPAREN '')'' 1]"]
  by (simp add: operator_def atom_def term_of_def digit_def int_ok_def)

subsection \<open>Declarations\<close>

text \<open>
  C5.  \<open>declared\<close> lists, in source order, the name and arity of every declaration
  \<^verbatim>\<open>IDENT NUMBER PERIOD\<close> of the token stream.  After an accepted parse, the mapping
  \<^verbatim>\<open>predicates\<close> is the mapping before the parse, overwritten by the declarations, a later
  one overwriting an earlier one of the same name: the name of a declaration that no later
  declaration repeats has the arity of that declaration.  The mapping is a function from
  names to arities, as a Python dictionary is, so a name has one arity.
\<close>

theorem redeclaration_last_wins:
  "fst (parseProgram src st) = None \<longrightarrow>
     predicates (snd (parseProgram src st)) =
       predicates st ++ map_of (rev (declared (tokenize src 1))) \<and>
     (\<forall>ds1 k a ds2. declared (tokenize src 1) = ds1 @ (k, a) # ds2 \<and> k \<notin> fst ` set ds2 \<longrightarrow>
        predicates (snd (parseProgram src st)) k = Some a)"
proof (intro impI conjI allI)
  assume ok: "fst (parseProgram src st) = None"
  then show p: "predicates (snd (parseProgram src st)) =
       predicates st ++ map_of (rev (declared (tokenize src 1)))"
    by (rule parse_accepted)
  fix ds1 k a ds2
  assume "declared (tokenize src 1) = ds1 @ (k, a) # ds2 \<and> k \<notin> fst ` set ds2"
  then have "declared (tokenize src 1) = ds1 @ (k, a) # ds2" and "k \<notin> fst ` set ds2"
    by simp_all
  then have "map_of (rev (declared (tokenize src 1))) k = Some a"
    using map_of_last_wins [of k ds2 ds1 a] by simp
  with p show "predicates (snd (parseProgram src st)) k = Some a"
    by (simp add: map_add_def)
qed

theorem redeclaration_last_wins_witness:
  "fst (parseProgram ''f 2. g 1. f 3.'' Program_init) = None \<and>
   declared (tokenize ''f 2. g 1. f 3.'' 1) =
     [(PStr ''f'', PInt 2), (PStr ''g'', PInt 1)] @ (PStr ''f'', PInt 3) # [] \<and>
   predicates (snd (parseProgram ''f 2. g 1. f 3.'' Program_init)) (PStr ''f'') = Some (PInt 3) \<and>
   predicates (snd (parseProgram ''f 2. g 1. f 3.'' Program_init)) (PStr ''g'') = Some (PInt 1)"
  using redeclaration_last_wins [of "''f 2. g 1. f 3.''" Program_init]
  by (simp add: lex_defs act_defs parse_defs Program_init_def)

subsection \<open>Signs\<close>

text \<open>
  C6.  Parsing \<^verbatim>\<open>not f(X).\<close> appends the fact \<^verbatim>\<open>(-1, "f", ["X"])\<close>, and parsing
  \<^verbatim>\<open>f(X).\<close> appends the fact \<^verbatim>\<open>(1, "f", ["X"])\<close>.  If every fact and every literal of
  every rule of the store has the sign 1 or -1, so it is after any parse, accepted or not;
  the initial store has no fact and no rule.
\<close>

theorem fact_signs:
  "facts (snd (parseProgram ''not f(X).'' st)) =
     facts st @ [PTuple [PInt (- 1), PStr ''f'', PList [PStr ''X'']]] \<and>
   facts (snd (parseProgram ''f(X).'' st)) =
     facts st @ [PTuple [PInt 1, PStr ''f'', PList [PStr ''X'']]] \<and>
   (list_all signed (stored_literals st) \<longrightarrow>
      list_all signed (stored_literals (snd (parseProgram src st))))"
proof (intro conjI impI)
  show "facts (snd (parseProgram ''not f(X).'' st)) =
      facts st @ [PTuple [PInt (- 1), PStr ''f'', PList [PStr ''X'']]]"
    by (simp add: lex_defs act_defs parse_defs)
  show "facts (snd (parseProgram ''f(X).'' st)) =
      facts st @ [PTuple [PInt 1, PStr ''f'', PList [PStr ''X'']]]"
    by (simp add: lex_defs act_defs parse_defs)
  assume "list_all signed (stored_literals st)"
  then show "list_all signed (stored_literals (snd (parseProgram src st)))"
    by (auto simp: list_all_iff parse_literals [of src st] dest: parse_literals_wf signed_wf)
qed

theorem fact_signs_witness:
  "list_all signed (stored_literals Program_init) \<and>
   stored_literals (snd (parseProgram ''p(X) :- not q(X), r(1).'' Program_init)) =
     [PTuple [PInt 1, PStr ''p'', PList [PStr ''X'']],
      PTuple [PInt 1, PStr ''r'', PList [PInt 1]],
      PTuple [PInt (- 1), PStr ''q'', PList [PStr ''X'']]] \<and>
   list_all signed (stored_literals (snd (parseProgram ''p(X) :- not q(X), r(1).'' Program_init)))"
  using fact_signs [of Program_init "''p(X) :- not q(X), r(1).''"]
  by (simp add: lex_defs act_defs parse_defs Program_init_def stored_literals_def)

subsection \<open>The store only grows\<close>

text \<open>
  C7.  After any parse, accepted or not, the facts, rules and queries of the store are the
  ones before the parse followed by the ones the same text leaves in the initial store:
  nothing is deleted or reordered.  So after a second call of \<^verbatim>\<open>parseProgram\<close> the store
  holds the results of the first call followed by those of the second.
\<close>

theorem parse_appends:
  "facts (snd (parseProgram src st)) = facts st @ facts (snd (parseProgram src Program_init)) \<and>
   rules (snd (parseProgram src st)) = rules st @ rules (snd (parseProgram src Program_init)) \<and>
   queries (snd (parseProgram src st)) =
     queries st @ queries (snd (parseProgram src Program_init)) \<and>
   facts (snd (parseProgram src2 (snd (parseProgram src1 st)))) =
     facts st @ facts (snd (parseProgram src1 Program_init))
       @ facts (snd (parseProgram src2 Program_init)) \<and>
   rules (snd (parseProgram src2 (snd (parseProgram src1 st)))) =
     rules st @ rules (snd (parseProgram src1 Program_init))
       @ rules (snd (parseProgram src2 Program_init)) \<and>
   queries (snd (parseProgram src2 (snd (parseProgram src1 st)))) =
     queries st @ queries (snd (parseProgram src1 Program_init))
       @ queries (snd (parseProgram src2 Program_init))"
proof -
  have f: "\<And>s x. facts (snd (parseProgram s x)) =
      facts x @ facts (snd (parseProgram s Program_init))"
    by (subst parse_frame) (simp add: extend_def)
  have r: "\<And>s x. rules (snd (parseProgram s x)) =
      rules x @ rules (snd (parseProgram s Program_init))"
    by (subst parse_frame) (simp add: extend_def)
  have q: "\<And>s x. queries (snd (parseProgram s x)) =
      queries x @ queries (snd (parseProgram s Program_init))"
    by (subst parse_frame) (simp add: extend_def)
  have f2: "facts (snd (parseProgram src2 (snd (parseProgram src1 st)))) =
     facts st @ facts (snd (parseProgram src1 Program_init))
       @ facts (snd (parseProgram src2 Program_init))"
    by (simp only: f [of src2 "snd (parseProgram src1 st)"] f [of src1 st] append_assoc)
  have r2: "rules (snd (parseProgram src2 (snd (parseProgram src1 st)))) =
     rules st @ rules (snd (parseProgram src1 Program_init))
       @ rules (snd (parseProgram src2 Program_init))"
    by (simp only: r [of src2 "snd (parseProgram src1 st)"] r [of src1 st] append_assoc)
  have q2: "queries (snd (parseProgram src2 (snd (parseProgram src1 st)))) =
     queries st @ queries (snd (parseProgram src1 Program_init))
       @ queries (snd (parseProgram src2 Program_init))"
    by (simp only: q [of src2 "snd (parseProgram src1 st)"] q [of src1 st] append_assoc)
  show ?thesis
    by (intro conjI) (rule f, rule r, rule q, rule f2, rule r2, rule q2)
qed

theorem parse_appends_witness:
  "facts (snd (parseProgram ''g(Y).'' (snd (parseProgram ''f(X).'' Program_init)))) =
     [PTuple [PInt 1, PStr ''f'', PList [PStr ''X'']],
      PTuple [PInt 1, PStr ''g'', PList [PStr ''Y'']]]"
  using parse_appends [of "''g(Y).''" Program_init "''g(Y).''" "''f(X).''"]
  by (simp add: lex_defs act_defs parse_defs Program_init_def)

subsection \<open>The negation keyword is not a name\<close>




subsection \<open>Arguments\<close>

text \<open>
  C10.  Parsing \<^verbatim>\<open>f().\<close> ends in a syntax error at the closing parenthesis and leaves the
  store as it was; in general \<^verbatim>\<open>params\<close> at a closing parenthesis fails with a syntax
  error at that token.  If every fact, every literal of every rule and every query of the
  store has at least one argument, so it is after any parse.
\<close>

theorem arguments_never_empty:
  "parseProgram ''f().'' st = (Some (SyntaxError (Some (LexToken RPAREN '')'' 1))), st) \<and>
   (tok_type t = RPAREN \<longrightarrow> params (t # ts) = Inl (SyntaxError (Some t))) \<and>
   (list_all has_arguments (stored_literals st) \<and> list_all query_has_arguments (queries st) \<longrightarrow>
      list_all has_arguments (stored_literals (snd (parseProgram src st))) \<and>
      list_all query_has_arguments (queries (snd (parseProgram src st))))"
proof (intro conjI impI)
  show "parseProgram ''f().'' st = (Some (SyntaxError (Some (LexToken RPAREN '')'' 1))), st)"
    by (simp add: lex_defs act_defs parse_defs)
  show "params (t # ts) = Inl (SyntaxError (Some t))" if "tok_type t = RPAREN"
    using that by (simp add: params_def var_expr_eq atom_def)
  assume a: "list_all has_arguments (stored_literals st) \<and>
    list_all query_has_arguments (queries st)"
  then show "list_all has_arguments (stored_literals (snd (parseProgram src st)))"
    by (auto simp: list_all_iff parse_literals [of src st]
          dest: parse_literals_wf has_arguments_wf)
  from a show "list_all query_has_arguments (queries (snd (parseProgram src st)))"
    by (auto simp: list_all_iff parse_queries [of src st]
          dest: parse_queries_wf query_has_arguments_wf)
qed

theorem arguments_never_empty_witness:
  "params [LexToken RPAREN '')'' 1, LexToken PERIOD ''.'' 1] =
     Inl (SyntaxError (Some (LexToken RPAREN '')'' 1))) \<and>
   list_all has_arguments (stored_literals Program_init) \<and>
   list_all query_has_arguments (queries Program_init) \<and>
   stored_literals (snd (parseProgram ''f(X). ?g(1, Y).'' Program_init)) =
     [PTuple [PInt 1, PStr ''f'', PList [PStr ''X'']]] \<and>
   queries (snd (parseProgram ''f(X). ?g(1, Y).'' Program_init)) =
     [PTuple [PStr ''g'', PList [PInt 1, PStr ''Y'']]] \<and>
   list_all has_arguments (stored_literals (snd (parseProgram ''f(X). ?g(1, Y).'' Program_init))) \<and>
   list_all query_has_arguments (queries (snd (parseProgram ''f(X). ?g(1, Y).'' Program_init)))"
  using arguments_never_empty [of Program_init "LexToken RPAREN '')'' 1"
      "[LexToken PERIOD ''.'' 1]" "''f(X). ?g(1, Y).''"]
  by (simp add: lex_defs act_defs parse_defs Program_init_def stored_literals_def)

end
